theory Spec2Isabelle
  imports Complex_Main
begin

section \<open>Python exceptions and the library constants the exporter reads\<close>

text \<open>
  The exporter is one Python module, \<^verbatim>\<open>celery_prometheus_exporter.py\<close>. Its functions
  mutate module-level Prometheus instruments and the state of the thread objects; the
  model threads one record through every function and returns it together with the
  exception that left the function, if any.
\<close>

datatype py_error =
    KeyError | TypeError | ValueError | IndexError | JSONDecodeError | UnicodeDecodeError
  | ResponseError | DataError

type_synonym 's result = "py_error option \<times> 's"

text \<open>
  Modelled from the spec: the task states of \<^verbatim>\<open>celery.states\<close> are constants of the
  celery library, which is not part of the repository's sources. Section 4.2 of the
  specification enumerates them; the ready (terminal) subset is SUCCESS, FAILURE and
  REVOKED.
\<close>

datatype task_state =
    PENDING | RECEIVED | STARTED | SUCCESS | FAILURE | REVOKED | RETRY | IGNORED | REJECTED

definition READY_STATES :: "task_state set" where
  "READY_STATES = {SUCCESS, FAILURE, REVOKED}"

text \<open>
  Modelled from the spec: \<^verbatim>\<open>celery.states.ALL_STATES\<close>, the states that
  \<^verbatim>\<open>setup_metrics\<close> enumerates when it re-baselines the gauges (section 4.4: every
  enumerated lifecycle state). The library constant lists these seven states.
\<close>

definition ALL_STATES :: "task_state list" where
  "ALL_STATES = [PENDING, RECEIVED, STARTED, SUCCESS, FAILURE, RETRY, REVOKED]"

text \<open>
  Modelled from the spec: \<^verbatim>\<open>celery.events.state.TASK_EVENT_TO_STATE\<close>, the fixed
  kind-to-state table of section 4.2 step 1 (received, started, succeeded, failed,
  retried, revoked, ...). A kind outside the table has no entry: the Python subscript
  raises KeyError there.
\<close>

definition TASK_EVENT_TO_STATE :: "string \<rightharpoonup> task_state" where
  "TASK_EVENT_TO_STATE =
     [''sent'' \<mapsto> PENDING, ''received'' \<mapsto> RECEIVED, ''started'' \<mapsto> STARTED,
      ''failed'' \<mapsto> FAILURE, ''retried'' \<mapsto> RETRY, ''succeeded'' \<mapsto> SUCCESS,
      ''revoked'' \<mapsto> REVOKED, ''rejected'' \<mapsto> REJECTED]"

text \<open>
  \<^verbatim>\<open>celery.events.group_from(type)\<close> is \<^verbatim>\<open>type.split('-', 1)[0]\<close>: the text before the
  first dash. \<open>subject_of\<close> is the text after it, which is what the library's own
  dispatcher resolves; for a type that starts with \<^verbatim>\<open>task-\<close> it is \<^verbatim>\<open>type[5:]\<close>.
\<close>

definition group_from :: "string \<Rightarrow> string" where
  "group_from ty = takeWhile (\<lambda>c. c \<noteq> CHR ''-'') ty"

definition subject_of :: "string \<Rightarrow> string" where
  "subject_of ty = drop 1 (dropWhile (\<lambda>c. c \<noteq> CHR ''-'') ty)"

section \<open>Events and task records\<close>

text \<open>
  An event is a Python dict. Each field the code subscripts is an option: \<open>None\<close> is a
  missing key, and the subscript raises KeyError. \<open>evt_hostname\<close>, \<open>evt_local_received\<close>
  and \<open>evt_clock\<close> are read only by the library's dispatcher.
\<close>

record event =
  evt_type :: "string option"
  evt_uuid :: "string option"
  evt_timestamp :: "real option"
  evt_runtime :: "real option"
  evt_name :: "string option"
  evt_hostname :: "string option"
  evt_local_received :: "real option"
  evt_clock :: "nat option"

text \<open>
  Modelled from the spec: the TaskRecord of section 3 (celery's \<^verbatim>\<open>Task\<close> object, library
  code outside the repository's sources). A fresh record has no name, state PENDING and
  no timestamp.
\<close>

record task =
  t_name :: "string option"
  t_state :: task_state
  t_timestamp :: "real option"

definition new_task :: task where
  "new_task = \<lparr>t_name = None, t_state = PENDING, t_timestamp = None\<rparr>"

section \<open>The bounded task store\<close>

text \<open>
  Modelled from the spec: the Task State Store of sections 3 and 4.1, which the source
  reaches as \<^verbatim>\<open>self._state.tasks\<close> (celery's LRU cache over an ordered dict, library code
  outside the repository's sources). The store is the list of its entries, oldest
  first. \<open>od_set\<close> is the ordered dict's item assignment (an existing key keeps its
  place, a new key goes last), \<open>od_del\<close> its deletion. Where the specification leaves
  the behaviour open the definitions follow the library: a limit of 0 means no limit,
  and subscripting the cache makes the entry the newest.
\<close>

type_synonym store = "(string \<times> task) list"

fun od_set :: "string \<Rightarrow> task \<Rightarrow> store \<Rightarrow> store" where
  "od_set k v [] = [(k, v)]"
| "od_set k v (p # ps) = (if fst p = k then (k, v) # ps else p # od_set k v ps)"

fun od_del :: "string \<Rightarrow> store \<Rightarrow> store" where
  "od_del k [] = []"
| "od_del k (p # ps) = (if fst p = k then ps else p # od_del k ps)"

text \<open>
  Item assignment on the cache: when a limit is set (a limit of 0 means no limit) and
  the store holds at least that many entries, the oldest entry is removed first; then
  the item is assigned.
\<close>

definition lru_setitem :: "nat \<Rightarrow> store \<Rightarrow> string \<Rightarrow> task \<Rightarrow> store" where
  "lru_setitem limit data k v =
     od_set k v (if limit \<noteq> 0 \<and> limit \<le> length data then tl data else data)"

text \<open>
  Subscripting the cache, \<^verbatim>\<open>tasks[key]\<close>: KeyError (\<open>None\<close>) for an unknown key;
  otherwise the entry is taken out and assigned again, which makes it the newest.
\<close>

definition lru_getitem :: "nat \<Rightarrow> store \<Rightarrow> string \<Rightarrow> (task \<times> store) option" where
  "lru_getitem limit data k =
     (case map_of data k of
        None \<Rightarrow> None
      | Some v \<Rightarrow> Some (v, lru_setitem limit (od_del k data) k v))"

text \<open>\<^verbatim>\<open>tasks.pop(key)\<close>: the mapping's pop, a subscript followed by a deletion.\<close>

definition lru_pop :: "nat \<Rightarrow> store \<Rightarrow> string \<Rightarrow> (task \<times> store) option" where
  "lru_pop limit data k =
     (case lru_getitem limit data k of
        None \<Rightarrow> None
      | Some (v, data') \<Rightarrow> Some (v, od_del k data'))"

section \<open>The Prometheus instruments and the exporter's state\<close>

text \<open>
  A gauge family maps the label values of a series to its value; \<open>None\<close> is a series
  that no \<^verbatim>\<open>labels(...)\<close> call has created yet. All values the exporter writes are
  counts. A histogram is the list of the samples it has observed, oldest first;
  \<open>runtime_series\<close> holds the names for which \<^verbatim>\<open>TASKS_RUNTIME.labels(name=...)\<close> has
  created a series, with or without samples.
\<close>

type_synonym 'k gauge = "'k \<rightharpoonup> nat"

definition gauge_value :: "'k gauge \<Rightarrow> 'k \<Rightarrow> nat" where
  "gauge_value g k = (case g k of None \<Rightarrow> 0 | Some v \<Rightarrow> v)"

definition gauge_inc :: "'k gauge \<Rightarrow> 'k \<Rightarrow> 'k gauge" where
  "gauge_inc g k = g(k \<mapsto> gauge_value g k + 1)"

text \<open>
  \<^verbatim>\<open>labels(name=x)\<close> turns every label value into text with \<^verbatim>\<open>str\<close>; a record without a
  name has \<^verbatim>\<open>name = None\<close>, whose text is \<^verbatim>\<open>'None'\<close>.
\<close>

definition label_str :: "string option \<Rightarrow> string" where
  "label_str n = (case n of None \<Rightarrow> ''None'' | Some s \<Rightarrow> s)"

text \<open>
  Raw broker messages: \<^verbatim>\<open>json.loads(t.decode())['headers']['task']\<close> either yields the
  value of the task header or raises. The message is modelled by what this expression
  does on it. The header is any JSON value that can be a dict key: a string, a number
  (given by the text \<^verbatim>\<open>str\<close> prints for it) or null; as dict keys the string
  \<^verbatim>\<open>'5'\<close> and the number 5 are different. \<open>Not_object\<close> is a payload or a headers
  value that is no JSON object, or a task header that is a list or an object: each
  raises TypeError (the last one in \<^verbatim>\<open>setdefault\<close>, as unhashable).
\<close>

datatype task_header = Name string | Number string | Null

datatype message =
    Task_message task_header
  | Not_json
  | No_task_key
  | Not_utf8
  | Not_object

text \<open>\<^verbatim>\<open>str\<close> of a header, which is what \<^verbatim>\<open>labels(name=k)\<close> makes of it.\<close>

definition header_str :: "task_header \<Rightarrow> string" where
  "header_str h = (case h of Name s \<Rightarrow> s | Number s \<Rightarrow> s | Null \<Rightarrow> ''None'')"

record exporter =
  tasks :: store
  max_tasks_in_memory :: nat
  known_states :: "task_state set"
  known_states_names :: "(task_state \<times> string) set"
  TASKS :: "task_state gauge"
  TASKS_NAME :: "(task_state \<times> string) gauge"
  WORKERS :: "nat option"
  LATENCY :: "real list"
  TASKS_RUNTIME :: "(string \<times> real) list"
  runtime_series :: "string set"
  QUEUE_LENGTHS :: "string gauge"
  QUEUE_TASKS :: "(string \<times> string) gauge"
  redis_keys :: "string list"
  redis_lists :: "string \<Rightarrow> message list"
  redis_sets :: "string \<Rightarrow> string set"
  log :: "py_error list"

text \<open>
  The state after \<^verbatim>\<open>MonitorThread.__init__\<close> and the module's instrument definitions:
  an empty store with the given limit, empty remembered label sets, no series.
\<close>

definition init_exporter ::
  "nat \<Rightarrow> string list \<Rightarrow> (string \<Rightarrow> message list) \<Rightarrow> (string \<Rightarrow> string set) \<Rightarrow> exporter" where
  "init_exporter limit ks ls ss =
     \<lparr>tasks = [], max_tasks_in_memory = limit, known_states = {}, known_states_names = {},
      TASKS = Map.empty, TASKS_NAME = Map.empty, WORKERS = None, LATENCY = [],
      TASKS_RUNTIME = [], runtime_series = {}, QUEUE_LENGTHS = Map.empty, QUEUE_TASKS = Map.empty,
      redis_keys = ks, redis_lists = ls, redis_sets = ss, log = []\<rparr>"

section \<open>MonitorThread\<close>

text \<open>
  \<^verbatim>\<open>Task.event\<close> belongs to the celery library, not to the repository; the definition
  follows the library, which the specification does not describe at this depth. The
  library orders the states by a precedence (a lower index is a later state; a state
  outside its list has the index of the unknown state). An event whose state comes
  before the record's state, neither of them RETRY, arrived out of order and is merged:
  the record keeps its state; a received event then contributes its name only, any
  other event its name and its timestamp. Every other event sets the state and the
  timestamp, and the name when it carries one.
\<close>

definition precedence :: "task_state \<Rightarrow> nat" where
  "precedence s =
     (case s of SUCCESS \<Rightarrow> 0 | FAILURE \<Rightarrow> 1 | IGNORED \<Rightarrow> 2 | REVOKED \<Rightarrow> 3
      | STARTED \<Rightarrow> 4 | RECEIVED \<Rightarrow> 5 | REJECTED \<Rightarrow> 6 | RETRY \<Rightarrow> 7 | PENDING \<Rightarrow> 8)"

definition task_event :: "task \<Rightarrow> task_state \<Rightarrow> event \<Rightarrow> task" where
  "task_event t state evt =
     (let name = (case evt_name evt of None \<Rightarrow> t_name t | Some n \<Rightarrow> Some n)
      in if state \<noteq> RETRY \<and> t_state t \<noteq> RETRY \<and> precedence (t_state t) < precedence state
         then (if state = RECEIVED then t\<lparr>t_name := name\<rparr>
               else t\<lparr>t_name := name, t_timestamp := evt_timestamp evt\<rparr>)
         else t\<lparr>t_name := name, t_state := state, t_timestamp := evt_timestamp evt\<rparr>)"

text \<open>
  \<^verbatim>\<open>State._event\<close> belongs to the celery library, not to the repository; the
  definition follows the library's dispatcher for a task event, also where the
  specification's upsert (section 4.1) reads differently. It subscripts the event for
  its type, uuid, hostname, timestamp, local_received and clock, so a missing one is a
  KeyError (section 4.2 would have such an event dropped). It looks the record up
  without touching the store's order, so an update does not make a record newer
  (sections 3 and 8 speak of insertion and update order). A new id gets a fresh record
  under the capacity rule. The library then makes room in its heap of events, which
  holds at most four times the limit: with a limit of 0 it pops from the empty heap,
  an IndexError that leaves the fresh record in the store without the event applied.
  Otherwise the event is applied to the record in place. An event outside the task
  group does not touch the task store. The exporter calls the dispatcher only with a
  subject of the kind-to-state table; for any other subject the model leaves the
  record's state as it is.
\<close>

definition state_event :: "exporter \<Rightarrow> event \<Rightarrow> exporter result" where
  "state_event st evt =
     (case evt_type evt of
        None \<Rightarrow> (Some KeyError, st)
      | Some ty \<Rightarrow>
          if group_from ty \<noteq> ''task'' then (None, st)
          else if evt_uuid evt = None \<or> evt_hostname evt = None \<or> evt_timestamp evt = None
                  \<or> evt_local_received evt = None \<or> evt_clock evt = None
          then (Some KeyError, st)
          else
            (let uuid = the (evt_uuid evt);
                 (t, data) =
                   (case map_of (tasks st) uuid of
                      Some t \<Rightarrow> (t, tasks st)
                    | None \<Rightarrow> (new_task,
                        lru_setitem (max_tasks_in_memory st) (tasks st) uuid new_task));
                 state = (case TASK_EVENT_TO_STATE (subject_of ty) of
                            None \<Rightarrow> t_state t | Some s \<Rightarrow> s)
             in if max_tasks_in_memory st = 0 then (Some IndexError, st\<lparr>tasks := data\<rparr>)
                else (None, st\<lparr>tasks := od_set uuid (task_event t state evt) data\<rparr>)))"

text \<open>
  \<^verbatim>\<open>_observe_runtime\<close>: the try block subscripts the event for its uuid and the store
  for the record; a KeyError of either is swallowed. The else block runs outside the
  try: \<^verbatim>\<open>labels(name=...)\<close> creates the series of the record's name first, then the
  event is subscripted for \<^verbatim>\<open>runtime\<close>, and a missing field raises.
\<close>

definition observe_runtime :: "exporter \<Rightarrow> event \<Rightarrow> exporter result" where
  "observe_runtime st evt =
     (case evt_uuid evt of
        None \<Rightarrow> (None, st)
      | Some u \<Rightarrow>
          (case lru_getitem (max_tasks_in_memory st) (tasks st) u of
             None \<Rightarrow> (None, st)
           | Some (prev_evt, data) \<Rightarrow>
               (let st1 = st\<lparr>tasks := data,
                            runtime_series :=
                              insert (label_str (t_name prev_evt)) (runtime_series st)\<rparr>
                in case evt_runtime evt of
                     None \<Rightarrow> (Some KeyError, st1)
                   | Some r \<Rightarrow>
                       (None, st1\<lparr>TASKS_RUNTIME :=
                          TASKS_RUNTIME st @ [(label_str (t_name prev_evt), r)]\<rparr>))))"

text \<open>
  \<^verbatim>\<open>_observe_latency\<close>: the same lookup; the sample is taken only when the record's
  state is RECEIVED. A missing event timestamp raises KeyError, a record without a
  timestamp makes the subtraction a TypeError.
\<close>

definition observe_latency :: "exporter \<Rightarrow> event \<Rightarrow> exporter result" where
  "observe_latency st evt =
     (case evt_uuid evt of
        None \<Rightarrow> (None, st)
      | Some u \<Rightarrow>
          (case lru_getitem (max_tasks_in_memory st) (tasks st) u of
             None \<Rightarrow> (None, st)
           | Some (prev_evt, data) \<Rightarrow>
               if t_state prev_evt = RECEIVED then
                 (case evt_timestamp evt of
                    None \<Rightarrow> (Some KeyError, st\<lparr>tasks := data\<rparr>)
                  | Some ts \<Rightarrow>
                      (case t_timestamp prev_evt of
                         None \<Rightarrow> (Some TypeError, st\<lparr>tasks := data\<rparr>)
                       | Some ts0 \<Rightarrow>
                           (None, st\<lparr>tasks := data, LATENCY := LATENCY st @ [ts - ts0]\<rparr>)))
               else (None, st\<lparr>tasks := data\<rparr>)))"

text \<open>
  \<^verbatim>\<open>_incr_ready_task\<close>: the per-state series is incremented first; then the record is
  popped and the per-name series incremented under the text of the record's name. A
  KeyError (no uuid, no record) ends the try block silently.
\<close>

definition incr_ready_task :: "exporter \<Rightarrow> event \<Rightarrow> task_state \<Rightarrow> exporter" where
  "incr_ready_task st evt state =
     (let st1 = st\<lparr>TASKS := gauge_inc (TASKS st) state\<rparr> in
      case evt_uuid evt of
        None \<Rightarrow> st1
      | Some u \<Rightarrow>
          (case lru_pop (max_tasks_in_memory st1) (tasks st1) u of
             None \<Rightarrow> st1
           | Some (ev, data) \<Rightarrow>
               st1\<lparr>tasks := data,
                   TASKS_NAME := gauge_inc (TASKS_NAME st1) (state, label_str (t_name ev))\<rparr>))"

text \<open>
  \<^verbatim>\<open>_collect_unready_tasks\<close>: two counters over the stored records, by state and by
  (state, name) for the records with a non-empty name; the keys seen are added to the
  remembered sets, and every remembered key has its series set to the fresh count.
\<close>

definition count_state :: "store \<Rightarrow> task_state \<Rightarrow> nat" where
  "count_state data s = length (filter (\<lambda>p. t_state (snd p) = s) data)"

definition count_state_name :: "store \<Rightarrow> task_state \<times> string \<Rightarrow> nat" where
  "count_state_name data sn =
     length (filter (\<lambda>p. t_state (snd p) = fst sn \<and> t_name (snd p) = Some (snd sn)
                          \<and> snd sn \<noteq> []) data)"

definition named_keys :: "store \<Rightarrow> (task_state \<times> string) set" where
  "named_keys data =
     set (concat (map (\<lambda>p. case t_name (snd p) of
                              None \<Rightarrow> []
                            | Some n \<Rightarrow> if n = [] then [] else [(t_state (snd p), n)]) data))"

definition collect_unready_tasks :: "exporter \<Rightarrow> exporter" where
  "collect_unready_tasks st =
     (let ks = known_states st \<union> set (map (\<lambda>p. t_state (snd p)) (tasks st));
          kn = known_states_names st \<union> named_keys (tasks st)
      in st\<lparr>known_states := ks,
            TASKS := (\<lambda>s. if s \<in> ks then Some (count_state (tasks st) s) else TASKS st s),
            known_states_names := kn,
            TASKS_NAME := (\<lambda>sn. if sn \<in> kn then Some (count_state_name (tasks st) sn)
                                  else TASKS_NAME st sn)\<rparr>)"

definition collect_tasks :: "exporter \<Rightarrow> event \<Rightarrow> task_state \<Rightarrow> exporter result" where
  "collect_tasks st evt state =
     (if state \<in> READY_STATES
      then (None, collect_unready_tasks (incr_ready_task st evt state))
      else (case state_event st evt of
              (Some e, st1) \<Rightarrow> (Some e, st1)
            | (None, st1) \<Rightarrow> (None, collect_unready_tasks st1)))"

text \<open>
  \<^verbatim>\<open>_process_event\<close>: only the table lookup's AttributeError is caught, so a missing
  \<^verbatim>\<open>type\<close> field and a kind outside the table both leave the function as a KeyError.
\<close>

definition process_event :: "exporter \<Rightarrow> event \<Rightarrow> exporter result" where
  "process_event st evt =
     (case evt_type evt of
        None \<Rightarrow> (Some KeyError, st)
      | Some ty \<Rightarrow>
          if group_from ty = ''task'' then
            (case TASK_EVENT_TO_STATE (drop 5 ty) of
               None \<Rightarrow> (Some KeyError, st)
             | Some state \<Rightarrow>
                 (case (if state = STARTED then observe_latency st evt else (None, st)) of
                    (Some e, st1) \<Rightarrow> (Some e, st1)
                  | (None, st1) \<Rightarrow>
                      (case (if state = SUCCESS then observe_runtime st1 evt else (None, st1)) of
                         (Some e, st2) \<Rightarrow> (Some e, st2)
                       | (None, st2) \<Rightarrow> collect_tasks st2 evt state)))
          else (None, st))"

text \<open>
  The state an event resolves to in \<^verbatim>\<open>_process_event\<close>: none for an event without a
  type, outside the task group or of a kind outside the table.
\<close>

definition resolved_state :: "event \<Rightarrow> task_state option" where
  "resolved_state evt =
     (case evt_type evt of
        None \<Rightarrow> None
      | Some ty \<Rightarrow> if group_from ty = ''task'' then TASK_EVENT_TO_STATE (drop 5 ty) else None)"


section \<open>setup_metrics and the worker poller\<close>

text \<open>
  \<^verbatim>\<open>setup_metrics\<close>: the argument is the answer of the registry query, \<open>None\<close> when the
  query raises. With an answer, every state of \<open>ALL_STATES\<close> has its series set to 0,
  and so has every such state with every registered name. Without one the handler walks
  the samples of the two families with \<^verbatim>\<open>for name, labels, cnt in metric.samples\<close>; a
  sample of the Prometheus client is a tuple of more than three fields, so the first
  sample there is makes the unpacking a ValueError, which leaves the function with
  nothing set to 0. Only with no series at all the handler ends in silence.
\<close>

definition setup_metrics :: "exporter \<Rightarrow> string list list option \<Rightarrow> exporter result" where
  "setup_metrics st registered_tasks =
     (case registered_tasks of
        None \<Rightarrow>
          (if dom (TASKS st) = {} \<and> dom (TASKS_NAME st) = {} then None else Some ValueError,
           st\<lparr>WORKERS := Some 0\<rparr>)
      | Some names \<Rightarrow>
          (None,
           st\<lparr>WORKERS := Some 0,
              TASKS := (\<lambda>s. if s \<in> set ALL_STATES then Some 0 else TASKS st s),
              TASKS_NAME := (\<lambda>sn. if fst sn \<in> set ALL_STATES \<and> snd sn \<in> set (concat names)
                                    then Some 0 else TASKS_NAME st sn)\<rparr>))"

text \<open>
  \<^verbatim>\<open>update_workers_count\<close>: the argument is the number of workers that answered the
  ping, or the exception of the ping, which is logged.
\<close>

definition update_workers_count :: "exporter \<Rightarrow> py_error + nat \<Rightarrow> exporter" where
  "update_workers_count st ping =
     (case ping of
        Inl e \<Rightarrow> st\<lparr>log := log st @ [e]\<rparr>
      | Inr n \<Rightarrow> st\<lparr>WORKERS := Some n\<rparr>)"

section \<open>BrokerQueueMonitorThread\<close>

definition KEY_PREFIX :: string where
  "KEY_PREFIX = ''_kombu.binding.''"

definition BUILTIN_QUEUES :: "string list" where
  "BUILTIN_QUEUES = [''celery.pidbox'', ''reply.celery.pidbox'', ''celeryev'']"

definition get_task_queues :: "string list \<Rightarrow> string list" where
  "get_task_queues queues = filter (\<lambda>q. q \<notin> set BUILTIN_QUEUES) queues"

definition get_all_queues :: "exporter \<Rightarrow> string list" where
  "get_all_queues st =
     map (drop (length KEY_PREFIX))
       (filter (\<lambda>k. take (length KEY_PREFIX) k = KEY_PREFIX) (redis_keys st))"

definition collect_queue_lengths :: "exporter \<Rightarrow> string \<Rightarrow> exporter" where
  "collect_queue_lengths st queue =
     st\<lparr>QUEUE_LENGTHS := (QUEUE_LENGTHS st)(queue \<mapsto> length (redis_lists st queue))\<rparr>"

text \<open>What \<^verbatim>\<open>json.loads(t.decode())['headers']['task']\<close> does on a message.\<close>

fun task_name_of :: "message \<Rightarrow> py_error + task_header" where
  "task_name_of (Task_message h) = Inr h"
| "task_name_of Not_json = Inl JSONDecodeError"
| "task_name_of No_task_key = Inl KeyError"
| "task_name_of Not_utf8 = Inl UnicodeDecodeError"
| "task_name_of Not_object = Inl TypeError"

text \<open>
  \<^verbatim>\<open>task_counts\<close> is a dict, which keeps its keys in the order of their insertion:
  a list of (key, count) pairs. \<open>count_up\<close> is \<^verbatim>\<open>setdefault(k, 0)\<close> followed by
  \<^verbatim>\<open>task_counts[k] += 1\<close>.
\<close>

type_synonym task_counts = "(task_header \<times> nat) list"

fun count_up :: "task_header \<Rightarrow> task_counts \<Rightarrow> task_counts" where
  "count_up k [] = [(k, 1)]"
| "count_up k (p # ps) = (if fst p = k then (k, snd p + 1) # ps else p # count_up k ps)"

text \<open>
  The tally loop of \<^verbatim>\<open>_collect_queue_tasks\<close>: KeyError and JSONDecodeError skip the
  message, any other exception leaves the function.
\<close>

fun tally :: "message list \<Rightarrow> task_counts \<Rightarrow> py_error + task_counts" where
  "tally [] task_counts = Inr task_counts"
| "tally (t # ts) task_counts =
     (case task_name_of t of
        Inl e \<Rightarrow> if e = KeyError \<or> e = JSONDecodeError then tally ts task_counts else Inl e
      | Inr k \<Rightarrow> tally ts (count_up k task_counts))"

text \<open>
  The loop \<^verbatim>\<open>for k, v in task_counts.items(): QUEUE_TASKS.labels(queue, k).set(v)\<close>:
  the series is named by the text of the key, so of two keys with the same text the
  later one wins.
\<close>

fun set_queue_tasks ::
  "string \<Rightarrow> task_counts \<Rightarrow> (string \<times> string) gauge \<Rightarrow> (string \<times> string) gauge" where
  "set_queue_tasks queue [] g = g"
| "set_queue_tasks queue (p # ps) g =
     set_queue_tasks queue ps (g((queue, header_str (fst p)) \<mapsto> snd p))"

text \<open>
  \<^verbatim>\<open>_zero_not_exist_tasks\<close>: every member of the persisted set that is no key of the
  snapshot (a member is text, so only a string key can equal it) has its series set to
  0; then the snapshot's keys are added to the set with SADD. Redis rejects a SADD
  without members, and the client raises ResponseError; the client refuses to encode
  null and raises DataError before anything is sent; a number is sent as its text.
\<close>

definition zero_not_exist_tasks ::
  "exporter \<Rightarrow> string \<Rightarrow> task_counts \<Rightarrow> exporter result" where
  "zero_not_exist_tasks st queue existing_tasks =
     (let full_tasks = redis_sets st (queue @ ''_tasks'');
          st1 = st\<lparr>QUEUE_TASKS :=
                  (\<lambda>qn. if fst qn = queue \<and> snd qn \<in> full_tasks
                            \<and> Name (snd qn) \<notin> fst ` set existing_tasks
                         then Some 0 else QUEUE_TASKS st qn)\<rparr>
      in if existing_tasks = [] then (Some ResponseError, st1)
         else if Null \<in> fst ` set existing_tasks then (Some DataError, st1)
         else (None, st1\<lparr>redis_sets :=
                 (redis_sets st1)(queue @ ''_tasks'' :=
                    full_tasks \<union> header_str ` fst ` set existing_tasks)\<rparr>))"

definition collect_queue_tasks :: "exporter \<Rightarrow> string \<Rightarrow> exporter result" where
  "collect_queue_tasks st queue =
     (case tally (redis_lists st queue) [] of
        Inl e \<Rightarrow> (Some e, st)
      | Inr task_counts \<Rightarrow>
          zero_not_exist_tasks
            (st\<lparr>QUEUE_TASKS := set_queue_tasks queue task_counts (QUEUE_TASKS st)\<rparr>)
            queue task_counts)"

text \<open>
  The second loop of \<^verbatim>\<open>collect_metrics\<close>: no handler stands inside the loop, so the
  first exception ends it.
\<close>

fun for_task_queues :: "exporter \<Rightarrow> string list \<Rightarrow> exporter result" where
  "for_task_queues st [] = (None, st)"
| "for_task_queues st (queue # queues) =
     (case collect_queue_tasks st queue of
        (Some e, st1) \<Rightarrow> (Some e, st1)
      | (None, st1) \<Rightarrow> for_task_queues st1 queues)"

definition collect_metrics :: "exporter \<Rightarrow> exporter result" where
  "collect_metrics st =
     (let queues = get_all_queues st
      in for_task_queues (fold (\<lambda>q s. collect_queue_lengths s q) queues st)
           (get_task_queues queues))"

text \<open>
  The try block of the loop of \<^verbatim>\<open>BrokerQueueMonitorThread.run\<close>: an exception of
  \<^verbatim>\<open>collect_metrics\<close> is logged.
\<close>

definition run_iteration :: "exporter \<Rightarrow> exporter" where
  "run_iteration st =
     (case collect_metrics st of
        (Some e, st1) \<Rightarrow> st1\<lparr>log := log st1 @ [e]\<rparr>
      | (None, st1) \<Rightarrow> st1)"

text \<open>
  \<^verbatim>\<open>INTERVAL_SECONDS = os.environ.get('QUEUE_INTERVAL_SECONDS', 5)\<close>: the number 5
  when the variable is unset, the variable's text otherwise. \<^verbatim>\<open>time.sleep\<close> stands
  behind the try block and raises TypeError on text.
\<close>

definition time_sleep :: "string option \<Rightarrow> py_error option" where
  "time_sleep interval_env = (case interval_env of None \<Rightarrow> None | Some _ \<Rightarrow> Some TypeError)"

text \<open>
  The loop of \<^verbatim>\<open>run\<close> never returns; \<open>run\<close> follows it for a given number of turns
  and stops at the exception that ends the thread.
\<close>

fun run :: "string option \<Rightarrow> nat \<Rightarrow> exporter \<Rightarrow> exporter result" where
  "run interval_env 0 st = (None, st)"
| "run interval_env (Suc n) st =
     (let st1 = run_iteration st
      in case time_sleep interval_env of
           Some e \<Rightarrow> (Some e, st1)
         | None \<Rightarrow> run interval_env n st1)"

section \<open>The exporter's loops as one transition system\<close>

text \<open>
  The threads share the instruments only. An operation is one step of one loop: an
  event handed to \<^verbatim>\<open>_process_event\<close>, a call of \<^verbatim>\<open>setup_metrics\<close> on a (re)connect, a
  turn of the queue monitor, a turn of the worker poller.
\<close>

datatype operation =
    Process_event event
  | Setup_metrics "string list list option"
  | Queue_poll
  | Workers_poll "py_error + nat"

fun execute :: "exporter \<Rightarrow> operation \<Rightarrow> exporter" where
  "execute st (Process_event evt) = snd (process_event st evt)"
| "execute st (Setup_metrics registered_tasks) = snd (setup_metrics st registered_tasks)"
| "execute st Queue_poll = run_iteration st"
| "execute st (Workers_poll ping) = update_workers_count st ping"

definition run_ops :: "exporter \<Rightarrow> operation list \<Rightarrow> exporter" where
  "run_ops st ops = foldl execute st ops"

section \<open>Concrete inputs\<close>

text \<open>
  A task event as the dispatcher delivers it: every transport field present, no name
  and no runtime unless added.
\<close>

definition task_evt :: "string \<Rightarrow> string \<Rightarrow> real \<Rightarrow> event" where
  "task_evt ty u ts =
     \<lparr>evt_type = Some ty, evt_uuid = Some u, evt_timestamp = Some ts, evt_runtime = None,
      evt_name = None, evt_hostname = Some ''worker1'', evt_local_received = Some ts,
      evt_clock = Some 0\<rparr>"

definition empty_exporter :: "nat \<Rightarrow> exporter" where
  "empty_exporter limit = init_exporter limit [] (\<lambda>_. []) (\<lambda>_. {})"

text \<open>The exporter after \<^verbatim>\<open>task-received\<close> for task x, named emailTask, at time 10.\<close>

definition after_received :: exporter where
  "after_received =
     snd (process_event (empty_exporter 2)
            ((task_evt ''task-received'' ''x'' 10)\<lparr>evt_name := Some ''emailTask''\<rparr>))"

text \<open>A store of capacity 2 after the received events of tasks a and b.\<close>

definition two_received :: exporter where
  "two_received =
     run_ops (empty_exporter 2)
       [Process_event (task_evt ''task-received'' ''a'' 1),
        Process_event (task_evt ''task-received'' ''b'' 2)]"

text \<open>Two tasks are received, then the first one fails.\<close>

definition received_then_failed :: "operation list" where
  "received_then_failed =
     [Process_event (task_evt ''task-received'' ''a'' 1),
      Process_event (task_evt ''task-received'' ''b'' 2),
      Process_event (task_evt ''task-failed'' ''a'' 3)]"

text \<open>
  The exporter after \<^verbatim>\<open>task-started\<close> for a task x it has not seen before: started
  events carry no name, so the record has none.
\<close>

definition after_started :: exporter where
  "after_started = snd (process_event (empty_exporter 2) (task_evt ''task-started'' ''x'' 5))"


text \<open>
  Queue q holds one message of task a and one whose payload is no JSON object; the
  persisted set of seen names is b.
\<close>

definition malformed_queue :: exporter where
  "malformed_queue =
     init_exporter 2 [''_kombu.binding.q'']
       (\<lambda>k. if k = ''q'' then [Task_message (Name ''a''), Not_object] else [])
       (\<lambda>k. if k = ''q_tasks'' then {''b''} else {})"

text \<open>
  Queue q holds four messages of task a and one that is no JSON; the persisted set of
  seen names is a and b.
\<close>

definition drained_queue :: exporter where
  "drained_queue =
     init_exporter 2 [''_kombu.binding.q'']
       (\<lambda>k. if k = ''q''
             then [Task_message (Name ''a''), Task_message (Name ''a''), Not_json,
                   Task_message (Name ''a''), Task_message (Name ''a'')]
             else [])
       (\<lambda>k. if k = ''q_tasks'' then {''a'', ''b''} else {})"

text \<open>Queue q holds only messages that do not decode to a task name.\<close>

definition undecodable_queue :: exporter where
  "undecodable_queue =
     init_exporter 2 [''_kombu.binding.q'']
       (\<lambda>k. if k = ''q'' then [Not_json, No_task_key] else [])
       (\<lambda>k. if k = ''q_tasks'' then {''a''} else {})"

text \<open>
  Queue q holds one message whose task header is the number 5; the persisted set of
  seen names holds the text 5.
\<close>

definition numeric_header_queue :: exporter where
  "numeric_header_queue =
     init_exporter 2 [''_kombu.binding.q'']
       (\<lambda>k. if k = ''q'' then [Task_message (Number ''5'')] else [])
       (\<lambda>k. if k = ''q_tasks'' then {''5''} else {})"


section \<open>Invariants of the event processor\<close>

text \<open>
  Every stored record is in an unready state, and so is every remembered state; a
  lookup in the store changes nothing but the order of the store.
\<close>

definition unready_store :: "store \<Rightarrow> bool" where
  "unready_store data = (\<forall>p \<in> set data. t_state (snd p) \<notin> READY_STATES)"

definition monitor_inv :: "exporter \<Rightarrow> bool" where
  "monitor_inv st = (unready_store (tasks st) \<and> known_states st \<inter> READY_STATES = {})"

definition lookup_only :: "exporter \<Rightarrow> exporter \<Rightarrow> bool" where
  "lookup_only st st' =
     (length (tasks st') \<le> length (tasks st) \<and> set (tasks st') \<subseteq> set (tasks st)
      \<and> max_tasks_in_memory st' = max_tasks_in_memory st
      \<and> known_states st' = known_states st \<and> TASKS st' = TASKS st)"

text \<open>The part of the state that the queue monitor and the worker poller never write.\<close>

definition monitor_view ::
  "exporter \<Rightarrow> store \<times> nat \<times> task_state set \<times> task_state gauge" where
  "monitor_view st = (tasks st, max_tasks_in_memory st, known_states st, TASKS st)"


section \<open>Evaluation of the concrete inputs\<close>

lemma resolved_simps:
  "resolved_state (task_evt ''task-sent'' u ts) = Some PENDING"
  "resolved_state (task_evt ''task-received'' u ts) = Some RECEIVED"
  "resolved_state (task_evt ''task-started'' u ts) = Some STARTED"
  "resolved_state (task_evt ''task-succeeded'' u ts) = Some SUCCESS"
  "resolved_state (task_evt ''task-failed'' u ts) = Some FAILURE"
  "resolved_state (task_evt ''task-retried'' u ts) = Some RETRY"
  by (simp_all add: resolved_state_def task_evt_def group_from_def TASK_EVENT_TO_STATE_def)

lemmas eval_defs =
  empty_exporter_def init_exporter_def process_event_def task_evt_def group_from_def
  subject_of_def TASK_EVENT_TO_STATE_def collect_tasks_def READY_STATES_def state_event_def
  lru_setitem_def lru_getitem_def lru_pop_def new_task_def task_event_def precedence_def
  collect_unready_tasks_def observe_latency_def observe_runtime_def incr_ready_task_def
  gauge_inc_def gauge_value_def label_str_def Let_def

lemma tasks_after_received:
  "tasks after_received =
     [(''x'', \<lparr>t_name = Some ''emailTask'', t_state = RECEIVED, t_timestamp = Some 10\<rparr>)]"
  by (simp add: after_received_def eval_defs)

lemma LATENCY_after_received: "LATENCY after_received = []"
  by (simp add: after_received_def eval_defs)

section \<open>Latency and runtime observations\<close>

lemma resolved_stateD:
  "resolved_state evt = Some s \<Longrightarrow>
     \<exists>ty. evt_type evt = Some ty \<and> group_from ty = ''task''
          \<and> TASK_EVENT_TO_STATE (drop 5 ty) = Some s"
  by (auto simp: resolved_state_def split: option.splits if_splits)

lemma LATENCY_collect_unready [simp]: "LATENCY (collect_unready_tasks st) = LATENCY st"
  by (simp add: collect_unready_tasks_def Let_def)

lemma LATENCY_state_event [simp]: "LATENCY (snd (state_event st evt)) = LATENCY st"
  by (auto simp: state_event_def Let_def split: option.splits prod.splits)

lemma LATENCY_incr_ready [simp]: "LATENCY (incr_ready_task st evt s) = LATENCY st"
  by (auto simp: incr_ready_task_def Let_def split: option.splits prod.splits)

lemma LATENCY_collect_tasks [simp]: "LATENCY (snd (collect_tasks st evt s)) = LATENCY st"
proof (cases "state_event st evt")
  case (Pair e st1)
  with LATENCY_state_event [of st evt] show ?thesis
    by (cases e) (auto simp: collect_tasks_def)
qed

lemma LATENCY_observe_latency:
  assumes "evt_uuid evt = Some u" and "evt_timestamp evt = Some ts"
  shows "LATENCY (snd (observe_latency st evt)) =
     (case map_of (tasks st) u of
        None \<Rightarrow> LATENCY st
      | Some prev \<Rightarrow>
          (case t_timestamp prev of
             None \<Rightarrow> LATENCY st
           | Some ts0 \<Rightarrow>
               if t_state prev = RECEIVED then LATENCY st @ [ts - ts0] else LATENCY st))"
  using assms by (auto simp: observe_latency_def lru_getitem_def split: option.splits)

lemma process_event_started:
  assumes "resolved_state evt = Some STARTED"
  shows "process_event st evt =
     (case observe_latency st evt of
        (Some e, st1) \<Rightarrow> (Some e, st1)
      | (None, st1) \<Rightarrow> collect_tasks st1 evt STARTED)"
  using resolved_stateD [OF assms]
  by (auto simp: process_event_def split: option.splits prod.splits)

lemma LATENCY_process_event_started:
  assumes "resolved_state evt = Some STARTED"
  shows "LATENCY (snd (process_event st evt)) = LATENCY (snd (observe_latency st evt))"
proof (cases "observe_latency st evt")
  case (Pair e st1)
  then show ?thesis
    by (cases e) (simp_all add: process_event_started [OF assms])
qed

text \<open>
  Claim C1. For an event that resolves to STARTED and carries its task id and its
  timestamp, processing the event appends exactly one sample to the latency histogram,
  the event's timestamp minus the record's, when the store holds a record for the id
  whose state is RECEIVED; with a record in any other state, or with no record, the
  histogram is left as it was. (For a record without a timestamp the subtraction
  raises and nothing is observed.)
\<close>

theorem observe_latency_iff_received:
  assumes "resolved_state evt = Some STARTED"
    and "evt_uuid evt = Some u"
    and "evt_timestamp evt = Some ts"
  shows "LATENCY (snd (process_event st evt)) =
     (case map_of (tasks st) u of
        None \<Rightarrow> LATENCY st
      | Some prev \<Rightarrow>
          (case t_timestamp prev of
             None \<Rightarrow> LATENCY st
           | Some ts0 \<Rightarrow>
               if t_state prev = RECEIVED then LATENCY st @ [ts - ts0] else LATENCY st))"
  by (simp only: LATENCY_process_event_started [OF assms(1)]
      LATENCY_observe_latency [OF assms(2,3)])

text \<open>
  The specification's example: \<^verbatim>\<open>[RECEIVED@10, STARTED@12]\<close> for task x yields the
  latency sample 2.
\<close>

theorem observe_latency_iff_received_witness:
  "resolved_state (task_evt ''task-started'' ''x'' 12) = Some STARTED
   \<and> evt_uuid (task_evt ''task-started'' ''x'' 12) = Some ''x''
   \<and> evt_timestamp (task_evt ''task-started'' ''x'' 12) = Some 12
   \<and> LATENCY (snd (process_event after_received (task_evt ''task-started'' ''x'' 12))) = [2]"
proof -
  have r: "resolved_state (task_evt ''task-started'' ''x'' 12) = Some STARTED"
    by (simp add: resolved_simps)
  have u: "evt_uuid (task_evt ''task-started'' ''x'' 12) = Some ''x''"
    and t: "evt_timestamp (task_evt ''task-started'' ''x'' 12) = Some 12"
    by (simp_all add: task_evt_def)
  show ?thesis
    using observe_latency_iff_received [OF r u t, of after_received] r u t
    by (simp add: tasks_after_received LATENCY_after_received)
qed

lemma RUNTIME_collect_unready [simp]:
  "TASKS_RUNTIME (collect_unready_tasks st) = TASKS_RUNTIME st"
  by (simp add: collect_unready_tasks_def Let_def)

lemma RUNTIME_incr_ready [simp]: "TASKS_RUNTIME (incr_ready_task st evt s) = TASKS_RUNTIME st"
  by (auto simp: incr_ready_task_def Let_def split: option.splits prod.splits)

lemma RUNTIME_observe_runtime:
  assumes "evt_uuid evt = Some u" and "evt_runtime evt = Some r"
  shows "TASKS_RUNTIME (snd (observe_runtime st evt)) =
     (case map_of (tasks st) u of
        None \<Rightarrow> TASKS_RUNTIME st
      | Some prev \<Rightarrow> TASKS_RUNTIME st @ [(label_str (t_name prev), r)])"
  using assms by (auto simp: observe_runtime_def lru_getitem_def split: option.splits)

lemma process_event_success:
  assumes "resolved_state evt = Some SUCCESS"
  shows "process_event st evt =
     (case observe_runtime st evt of
        (Some e, st1) \<Rightarrow> (Some e, st1)
      | (None, st1) \<Rightarrow> (None, collect_unready_tasks (incr_ready_task st1 evt SUCCESS)))"
  using resolved_stateD [OF assms]
  by (auto simp: process_event_def collect_tasks_def READY_STATES_def
      split: option.splits prod.splits)

text \<open>
  Claim C5. For an event that resolves to SUCCESS and carries its task id and a runtime,
  processing the event appends exactly one sample to the runtime histogram when the
  store holds a record for the id: the sample is the runtime value of the event, under
  the label of the record's name. With no record for the id nothing is observed.
\<close>

theorem observe_runtime_from_event:
  assumes "resolved_state evt = Some SUCCESS"
    and "evt_uuid evt = Some u"
    and "evt_runtime evt = Some r"
  shows "TASKS_RUNTIME (snd (process_event st evt)) =
     (case map_of (tasks st) u of
        None \<Rightarrow> TASKS_RUNTIME st
      | Some prev \<Rightarrow> TASKS_RUNTIME st @ [(label_str (t_name prev), r)])"
proof -
  have "TASKS_RUNTIME (snd (process_event st evt)) = TASKS_RUNTIME (snd (observe_runtime st evt))"
  proof (cases "observe_runtime st evt")
    case (Pair e st1)
    then show ?thesis
      by (cases e) (simp_all add: process_event_success [OF assms(1)])
  qed
  then show ?thesis
    by (simp only: RUNTIME_observe_runtime [OF assms(2,3)])
qed

text \<open>
  The specification's example: a succeeded event with runtime 3.2 for task x, whose
  record is named emailTask, makes the histogram observe 3.2 under that name.
\<close>

theorem observe_runtime_from_event_witness:
  "resolved_state ((task_evt ''task-succeeded'' ''x'' 15)\<lparr>evt_runtime := Some (16 / 5)\<rparr>)
     = Some SUCCESS
   \<and> evt_uuid ((task_evt ''task-succeeded'' ''x'' 15)\<lparr>evt_runtime := Some (16 / 5)\<rparr>)
     = Some ''x''
   \<and> evt_runtime ((task_evt ''task-succeeded'' ''x'' 15)\<lparr>evt_runtime := Some (16 / 5)\<rparr>)
     = Some (16 / 5)
   \<and> TASKS_RUNTIME (snd (process_event after_received
        ((task_evt ''task-succeeded'' ''x'' 15)\<lparr>evt_runtime := Some (16 / 5)\<rparr>)))
     = [(''emailTask'', 16 / 5)]"
proof -
  let ?e = "(task_evt ''task-succeeded'' ''x'' 15)\<lparr>evt_runtime := Some (16 / 5)\<rparr>"
  have r: "resolved_state ?e = Some SUCCESS"
    by (simp add: resolved_state_def task_evt_def group_from_def TASK_EVENT_TO_STATE_def)
  have u: "evt_uuid ?e = Some ''x''" and t: "evt_runtime ?e = Some (16 / 5)"
    by (simp_all add: task_evt_def)
  have "TASKS_RUNTIME after_received = []"
    by (simp add: after_received_def eval_defs)
  then show ?thesis
    using observe_runtime_from_event [OF r u t, of after_received] r u t
    by (simp add: tasks_after_received label_str_def)
qed

section \<open>Properties of the store operations\<close>

lemma length_od_set: "length (od_set k v d) \<le> Suc (length d)"
  by (induction d) auto

lemma length_od_del: "length (od_del k d) \<le> length d"
  by (induction d) auto

lemma length_od_del_present: "map_of d k = Some v \<Longrightarrow> Suc (length (od_del k d)) = length d"
  by (induction d) (auto split: if_splits)

lemma set_od_set: "set (od_set k v d) \<subseteq> insert (k, v) (set d)"
  by (induction d) auto

lemma set_od_del: "set (od_del k d) \<subseteq> set d"
  by (induction d) auto

lemma set_tl: "set (tl d) \<subseteq> set d"
  by (cases d) auto

lemma od_set_new: "k \<notin> fst ` set d \<Longrightarrow> od_set k v d = d @ [(k, v)]"
  by (induction d) auto

lemma length_lru_setitem: "length (lru_setitem limit d k v) \<le> Suc (length d)"
proof -
  have "length (tl d) \<le> length d" by simp
  then show ?thesis
    using length_od_set [of k v d] length_od_set [of k v "tl d"]
    by (auto simp: lru_setitem_def simp del: length_tl)
qed

lemma length_lru_setitem_limit:
  assumes "0 < limit" and "length d \<le> limit"
  shows "length (lru_setitem limit d k v) \<le> limit"
proof (cases "limit \<le> length d")
  case True
  then have "length (tl d) < limit" using assms by simp
  then show ?thesis
    using True assms length_od_set [of k v "tl d"] by (simp add: lru_setitem_def)
next
  case False
  then show ?thesis
    using length_od_set [of k v d] by (simp add: lru_setitem_def)
qed

lemma set_lru_setitem: "set (lru_setitem limit d k v) \<subseteq> insert (k, v) (set d)"
  using set_od_set [of k v d] set_od_set [of k v "tl d"] set_tl [of d]
  by (auto simp: lru_setitem_def)

lemma lru_getitem_length:
  assumes "lru_getitem limit d k = Some (v, d')"
  shows "length d' \<le> length d"
proof -
  from assms have m: "map_of d k = Some v" and d': "d' = lru_setitem limit (od_del k d) k v"
    by (auto simp: lru_getitem_def split: option.splits)
  show ?thesis
    using length_lru_setitem [of limit "od_del k d" k v] length_od_del_present [OF m]
    by (simp add: d')
qed

lemma lru_getitem_set:
  assumes "lru_getitem limit d k = Some (v, d')"
  shows "set d' \<subseteq> set d"
proof -
  from assms have m: "map_of d k = Some v" and d': "d' = lru_setitem limit (od_del k d) k v"
    by (auto simp: lru_getitem_def split: option.splits)
  from m have "(k, v) \<in> set d" by (rule map_of_SomeD)
  then show ?thesis
    using set_lru_setitem [of limit "od_del k d" k v] set_od_del [of k d]
    by (auto simp: d')
qed

lemma lru_pop_length:
  assumes "lru_pop limit d k = Some (v, d')"
  shows "length d' \<le> length d"
proof -
  from assms obtain d1 where g: "lru_getitem limit d k = Some (v, d1)" and d': "d' = od_del k d1"
    by (auto simp: lru_pop_def split: option.splits)
  show ?thesis
    using lru_getitem_length [OF g] length_od_del [of k d1] by (simp add: d')
qed

lemma lru_pop_set:
  assumes "lru_pop limit d k = Some (v, d')"
  shows "set d' \<subseteq> set d"
proof -
  from assms obtain d1 where g: "lru_getitem limit d k = Some (v, d1)" and d': "d' = od_del k d1"
    by (auto simp: lru_pop_def split: option.splits)
  show ?thesis
    using lru_getitem_set [OF g] set_od_del [of k d1] by (auto simp: d')
qed

section \<open>What the event processor preserves\<close>

lemma lookup_only_refl [simp]: "lookup_only st st"
  by (simp add: lookup_only_def)

lemma lookup_only_getitem:
  "lru_getitem (max_tasks_in_memory st) (tasks st) u = Some (v, d) \<Longrightarrow>
     lookup_only st (st\<lparr>tasks := d\<rparr>)"
  by (simp add: lookup_only_def lru_getitem_length lru_getitem_set)

lemma observe_latency_lookup: "lookup_only st (snd (observe_latency st evt))"
proof (cases "evt_uuid evt")
  case None
  then show ?thesis by (simp add: observe_latency_def)
next
  case (Some u)
  show ?thesis
  proof (cases "lru_getitem (max_tasks_in_memory st) (tasks st) u")
    case None
    with Some show ?thesis by (simp add: observe_latency_def)
  next
    case (Some a)
    obtain v d where a: "a = (v, d)" by (cases a)
    from lookup_only_getitem [of st u v d] Some a
    have "lookup_only st (st\<lparr>tasks := d\<rparr>)" by simp
    then have "lookup_only st (st\<lparr>tasks := d, LATENCY := l\<rparr>)" for l
      by (simp add: lookup_only_def)
    with \<open>lookup_only st (st\<lparr>tasks := d\<rparr>)\<close> show ?thesis
      using \<open>evt_uuid evt = Some u\<close> Some a
      by (simp add: observe_latency_def split: option.splits)
  qed
qed

lemma observe_runtime_lookup: "lookup_only st (snd (observe_runtime st evt))"
  by (auto simp: observe_runtime_def Let_def lookup_only_def
      split: option.splits dest: lru_getitem_length lru_getitem_set)

lemma lookup_only_inv: "lookup_only st st' \<Longrightarrow> monitor_inv st \<Longrightarrow> monitor_inv st'"
  by (auto simp: lookup_only_def monitor_inv_def unready_store_def)

lemma lookup_only_bounded:
  "lookup_only st st' \<Longrightarrow> length (tasks st) \<le> max_tasks_in_memory st \<Longrightarrow>
     length (tasks st') \<le> max_tasks_in_memory st'"
  by (simp add: lookup_only_def)



lemma subject_of_task:
  assumes "group_from ty = ''task''" and "TASK_EVENT_TO_STATE (drop 5 ty) = Some s"
  shows "subject_of ty = drop 5 ty"
proof -
  let ?P = "\<lambda>c. c \<noteq> CHR ''-''"
  have g: "takeWhile ?P ty = ''task''"
    using assms(1) by (simp add: group_from_def)
  have ty: "ty = ''task'' @ dropWhile ?P ty"
    by (simp only: g [symmetric] takeWhile_dropWhile_id)
  show ?thesis
  proof (cases "dropWhile ?P ty")
    case Nil
    with ty have "ty = ''task''" by simp
    with assms(2) show ?thesis by (simp add: TASK_EVENT_TO_STATE_def)
  next
    case (Cons c rest)
    with ty have "ty = ''task'' @ c # rest" by simp
    then have "drop 5 ty = rest" by simp
    with Cons show ?thesis by (simp add: subject_of_def)
  qed
qed

lemma incr_ready_task_frame:
  "length (tasks (incr_ready_task st evt s)) \<le> length (tasks st)
   \<and> set (tasks (incr_ready_task st evt s)) \<subseteq> set (tasks st)
   \<and> max_tasks_in_memory (incr_ready_task st evt s) = max_tasks_in_memory st
   \<and> known_states (incr_ready_task st evt s) = known_states st
   \<and> TASKS (incr_ready_task st evt s) = gauge_inc (TASKS st) s"
proof (cases "evt_uuid evt")
  case None
  then show ?thesis by (simp add: incr_ready_task_def)
next
  case (Some u)
  show ?thesis
  proof (cases "lru_pop (max_tasks_in_memory st) (tasks st) u")
    case None
    with Some show ?thesis by (simp add: incr_ready_task_def)
  next
    case (Some a)
    obtain v d where a: "a = (v, d)" by (cases a)
    with Some lru_pop_length [of "max_tasks_in_memory st" "tasks st" u v d]
      lru_pop_set [of "max_tasks_in_memory st" "tasks st" u v d]
    show ?thesis using \<open>evt_uuid evt = Some u\<close>
      by (simp add: incr_ready_task_def)
  qed
qed

lemma collect_unready_frame:
  "tasks (collect_unready_tasks st) = tasks st
   \<and> max_tasks_in_memory (collect_unready_tasks st) = max_tasks_in_memory st
   \<and> known_states (collect_unready_tasks st)
       = known_states st \<union> set (map (\<lambda>p. t_state (snd p)) (tasks st))"
  by (simp add: collect_unready_tasks_def Let_def)

lemma collect_unready_TASKS:
  "TASKS (collect_unready_tasks st) s =
     (if s \<in> known_states st \<union> set (map (\<lambda>p. t_state (snd p)) (tasks st))
      then Some (count_state (tasks st) s) else TASKS st s)"
  by (simp add: collect_unready_tasks_def Let_def)

lemma collect_unready_inv:
  assumes "monitor_inv st"
  shows "monitor_inv (collect_unready_tasks st)"
  using assms
  by (auto simp: monitor_inv_def unready_store_def collect_unready_frame)

lemma collect_unready_ready:
  assumes "monitor_inv st" and "s \<in> READY_STATES"
  shows "TASKS (collect_unready_tasks st) s = TASKS st s"
  using assms
  by (auto simp: monitor_inv_def unready_store_def collect_unready_TASKS)

lemma unready_od_set:
  assumes "unready_store d" and "t_state v \<notin> READY_STATES"
  shows "unready_store (od_set k v d)"
  using assms set_od_set [of k v d] by (auto simp: unready_store_def)

lemma unready_lru_setitem:
  assumes "unready_store d" and "t_state v \<notin> READY_STATES"
  shows "unready_store (lru_setitem limit d k v)"
  using assms set_lru_setitem [of limit d k v] by (auto simp: unready_store_def)

lemma length_od_set_present: "map_of d k = Some v' \<Longrightarrow> length (od_set k v d) = length d"
  by (induction d) (auto split: if_splits)

lemma map_of_od_set_same: "map_of (od_set k v d) k = Some v"
  by (induction d) auto

lemma map_of_lru_setitem_same: "map_of (lru_setitem limit d k v) k = Some v"
  by (simp add: lru_setitem_def map_of_od_set_same)

lemma task_event_state:
  "t_state (task_event t s evt) = s \<or> t_state (task_event t s evt) = t_state t"
  by (simp add: task_event_def Let_def)

lemma task_event_new: "t_state (task_event new_task s evt) = s"
  by (simp add: task_event_def Let_def new_task_def precedence_def split: task_state.splits)

lemma state_event_frame:
  "max_tasks_in_memory (snd (state_event st evt)) = max_tasks_in_memory st
   \<and> known_states (snd (state_event st evt)) = known_states st
   \<and> TASKS (snd (state_event st evt)) = TASKS st"
  by (auto simp: state_event_def Let_def split: option.splits prod.splits)

lemma state_event_tasks:
  assumes "evt_type evt = Some ty" and "group_from ty = ''task''"
    and "TASK_EVENT_TO_STATE (subject_of ty) = Some s"
    and "fst (state_event st evt) = None"
  shows "\<exists>u. evt_uuid evt = Some u \<and>
     tasks (snd (state_event st evt)) =
       (case map_of (tasks st) u of
          Some t \<Rightarrow> od_set u (task_event t s evt) (tasks st)
        | None \<Rightarrow> od_set u (task_event new_task s evt)
                   (lru_setitem (max_tasks_in_memory st) (tasks st) u new_task))"
  using assms
  by (auto simp: state_event_def Let_def split: option.splits if_splits)

lemma state_event_raises:
  assumes "fst (state_event st evt) = Some e"
  shows "e = KeyError \<and> snd (state_event st evt) = st
     \<or> e = IndexError \<and> max_tasks_in_memory st = 0
        \<and> (\<exists>u. evt_uuid evt = Some u \<and>
              tasks (snd (state_event st evt)) =
                (case map_of (tasks st) u of
                   Some t \<Rightarrow> tasks st
                 | None \<Rightarrow> lru_setitem (max_tasks_in_memory st) (tasks st) u new_task))"
  using assms
  by (auto simp: state_event_def Let_def split: option.splits if_splits prod.splits)

lemma state_event_unready:
  assumes "evt_type evt = Some ty" and "group_from ty = ''task''"
    and "TASK_EVENT_TO_STATE (subject_of ty) = Some s" and "s \<notin> READY_STATES"
    and "unready_store (tasks st)"
  shows "unready_store (tasks (snd (state_event st evt)))"
proof (cases "fst (state_event st evt)")
  case (Some e)
  have n: "t_state new_task \<notin> READY_STATES"
    by (simp add: new_task_def READY_STATES_def)
  from state_event_raises [OF Some] assms(5) n show ?thesis
    by (auto split: option.splits intro!: unready_lru_setitem)
next
  case None
  from state_event_tasks [OF assms(1-3) None] obtain u where
    t: "tasks (snd (state_event st evt)) =
       (case map_of (tasks st) u of
          Some t \<Rightarrow> od_set u (task_event t s evt) (tasks st)
        | None \<Rightarrow> od_set u (task_event new_task s evt)
                   (lru_setitem (max_tasks_in_memory st) (tasks st) u new_task))"
    by blast
  have s: "t_state (task_event t s evt) \<notin> READY_STATES"
    if "t_state t \<notin> READY_STATES" for t
    using assms(4) that task_event_state [of t s evt] by auto
  have n: "t_state new_task \<notin> READY_STATES"
    by (simp add: new_task_def READY_STATES_def)
  have m: "t_state t \<notin> READY_STATES" if "map_of (tasks st) u = Some t" for t
    using map_of_SomeD [OF that] assms(5) by (auto simp: unready_store_def)
  show ?thesis
    unfolding t using assms(5) s n m
    by (auto split: option.splits intro!: unready_od_set unready_lru_setitem)
qed

lemma state_event_bounded:
  assumes "0 < max_tasks_in_memory st" and "length (tasks st) \<le> max_tasks_in_memory st"
  shows "length (tasks (snd (state_event st evt))) \<le> max_tasks_in_memory st"
proof -
  have a: "length (od_set u v (tasks st)) \<le> max_tasks_in_memory st"
    if "map_of (tasks st) u = Some t" for u v t
    using that assms(2) by (simp add: length_od_set_present)
  have b: "length (od_set u v (lru_setitem (max_tasks_in_memory st) (tasks st) u new_task))
             \<le> max_tasks_in_memory st" for u v
    using length_lru_setitem_limit [OF assms, of u new_task]
      length_od_set_present [OF map_of_lru_setitem_same, of u v "max_tasks_in_memory st" "tasks st" new_task]
    by simp
  show ?thesis
    using assms a b
    by (auto simp: state_event_def Let_def split: option.splits prod.splits)
qed

lemma lookup_only_trans: "lookup_only a b \<Longrightarrow> lookup_only b c \<Longrightarrow> lookup_only a c"
  by (auto simp: lookup_only_def)

lemma process_event_unresolved:
  assumes "resolved_state evt = None"
  shows "snd (process_event st evt) = st"
  using assms
  by (auto simp: resolved_state_def process_event_def split: option.splits if_splits)

lemma process_event_stages:
  assumes "resolved_state evt = Some state"
  shows "\<exists>st2. lookup_only st st2 \<and>
     (process_event st evt = collect_tasks st2 evt state
      \<or> (\<exists>e. process_event st evt = (Some e, st2)))"
proof -
  from resolved_stateD [OF assms] obtain ty where ty: "evt_type evt = Some ty"
    "group_from ty = ''task''" "TASK_EVENT_TO_STATE (drop 5 ty) = Some state"
    by blast
  define r1 where "r1 = (if state = STARTED then observe_latency st evt else (None, st))"
  define r2 where
    "r2 = (if state = SUCCESS then observe_runtime (snd r1) evt else (None, snd r1))"
  have l1: "lookup_only st (snd r1)"
    by (simp add: r1_def observe_latency_lookup)
  have "lookup_only (snd r1) (snd r2)"
    by (simp add: r2_def observe_runtime_lookup)
  with l1 have l2: "lookup_only st (snd r2)"
    by (rule lookup_only_trans)
  have pe: "process_event st evt =
     (case r1 of (Some e, st1) \<Rightarrow> (Some e, st1)
      | (None, st1) \<Rightarrow> (case r2 of (Some e, st2) \<Rightarrow> (Some e, st2)
                          | (None, st2) \<Rightarrow> collect_tasks st2 evt state))"
    using ty by (simp add: process_event_def r1_def r2_def split: prod.splits option.splits)
  show ?thesis
  proof (cases r1)
    case (Pair e1 st1)
    show ?thesis
    proof (cases e1)
      case (Some e)
      with Pair pe l1 show ?thesis by auto
    next
      case None
      show ?thesis
      proof (cases r2)
        case (Pair e2 st2)
        with None \<open>r1 = (e1, st1)\<close> pe l2 show ?thesis
          by (cases e2) auto
      qed
    qed
  qed
qed

lemma collect_tasks_ready:
  assumes "state \<in> READY_STATES"
  shows "collect_tasks st evt state = (None, collect_unready_tasks (incr_ready_task st evt state))"
  using assms by (simp add: collect_tasks_def)

lemma collect_tasks_unready:
  assumes "state \<notin> READY_STATES"
  shows "collect_tasks st evt state =
     (case fst (state_event st evt) of
        Some e \<Rightarrow> (Some e, snd (state_event st evt))
      | None \<Rightarrow> (None, collect_unready_tasks (snd (state_event st evt))))"
proof (cases "state_event st evt")
  case (Pair e st1)
  with assms show ?thesis
    by (cases e) (auto simp: collect_tasks_def)
qed

lemma collect_tasks_max:
  "max_tasks_in_memory (snd (collect_tasks st evt state)) = max_tasks_in_memory st"
  by (cases "state \<in> READY_STATES")
     (auto simp: collect_tasks_ready collect_tasks_unready collect_unready_frame
        incr_ready_task_frame state_event_frame split: option.splits)

lemma collect_tasks_bounded:
  assumes "0 < max_tasks_in_memory st" and "length (tasks st) \<le> max_tasks_in_memory st"
  shows "length (tasks (snd (collect_tasks st evt state))) \<le> max_tasks_in_memory st"
proof (cases "state \<in> READY_STATES")
  case True
  have "length (tasks (incr_ready_task st evt state)) \<le> length (tasks st)"
    by (simp add: incr_ready_task_frame)
  with assms(2) True show ?thesis
    by (simp add: collect_tasks_ready collect_unready_frame)
next
  case False
  with state_event_bounded [OF assms, of evt] assms(2) show ?thesis
    by (simp add: collect_tasks_unready collect_unready_frame split: option.splits)
qed

lemma incr_ready_task_inv:
  assumes "monitor_inv st"
  shows "monitor_inv (incr_ready_task st evt state)"
  using assms incr_ready_task_frame [of st evt state]
  by (auto simp: monitor_inv_def unready_store_def)

lemma collect_tasks_inv:
  assumes "monitor_inv st" and "resolved_state evt = Some state"
  shows "monitor_inv (snd (collect_tasks st evt state))"
proof (cases "state \<in> READY_STATES")
  case True
  with incr_ready_task_inv [OF assms(1)] show ?thesis
    by (simp add: collect_tasks_ready collect_unready_inv)
next
  case False
  from resolved_stateD [OF assms(2)] obtain ty where ty: "evt_type evt = Some ty"
    "group_from ty = ''task''" "TASK_EVENT_TO_STATE (drop 5 ty) = Some state"
    by blast
  from ty have sub: "TASK_EVENT_TO_STATE (subject_of ty) = Some state"
    by (simp add: subject_of_task)
  have "unready_store (tasks (snd (state_event st evt)))"
    using state_event_unready [OF ty(1,2) sub False] assms(1) by (simp add: monitor_inv_def)
  then have "monitor_inv (snd (state_event st evt))"
    using assms(1) by (simp add: monitor_inv_def state_event_frame)
  with assms(1) False show ?thesis
    by (simp add: collect_tasks_unready collect_unready_inv split: option.splits)
qed

lemma gauge_value_inc:
  "gauge_value (gauge_inc g k) s = gauge_value g s + (if k = s then 1 else 0)"
  by (simp add: gauge_value_def gauge_inc_def)

lemma collect_tasks_TASKS:
  assumes "monitor_inv st" and "resolved_state evt = Some state" and "s \<in> READY_STATES"
  shows "gauge_value (TASKS (snd (collect_tasks st evt state))) s =
     gauge_value (TASKS st) s + (if state = s then 1 else 0)"
proof (cases "state \<in> READY_STATES")
  case True
  have "TASKS (collect_unready_tasks (incr_ready_task st evt state)) s
          = gauge_inc (TASKS st) state s"
    using collect_unready_ready [OF incr_ready_task_inv [OF assms(1)] assms(3), of evt state]
    by (simp add: incr_ready_task_frame)
  then have "gauge_value (TASKS (collect_unready_tasks (incr_ready_task st evt state))) s
          = gauge_value (gauge_inc (TASKS st) state) s"
    by (simp add: gauge_value_def)
  with True show ?thesis
    by (simp add: collect_tasks_ready gauge_value_inc)
next
  case False
  with assms(3) have ne: "state \<noteq> s" by auto
  from resolved_stateD [OF assms(2)] obtain ty where ty: "evt_type evt = Some ty"
    "group_from ty = ''task''" "TASK_EVENT_TO_STATE (drop 5 ty) = Some state"
    by blast
  from ty have sub: "TASK_EVENT_TO_STATE (subject_of ty) = Some state"
    by (simp add: subject_of_task)
  have "unready_store (tasks (snd (state_event st evt)))"
    using state_event_unready [OF ty(1,2) sub False] assms(1) by (simp add: monitor_inv_def)
  then have "monitor_inv (snd (state_event st evt))"
    using assms(1) by (simp add: monitor_inv_def state_event_frame)
  from collect_unready_ready [OF this assms(3)]
  have "TASKS (collect_unready_tasks (snd (state_event st evt))) s = TASKS st s"
    by (simp add: state_event_frame)
  then have "gauge_value (TASKS (collect_unready_tasks (snd (state_event st evt)))) s
      = gauge_value (TASKS st) s"
    by (simp add: gauge_value_def)
  with False ne show ?thesis
    by (simp add: collect_tasks_unready state_event_frame split: option.splits)
qed

lemma process_event_max:
  "max_tasks_in_memory (snd (process_event st evt)) = max_tasks_in_memory st"
proof (cases "resolved_state evt")
  case None
  then show ?thesis by (simp add: process_event_unresolved)
next
  case (Some state)
  from process_event_stages [OF Some, of st] show ?thesis
    by (auto simp: lookup_only_def collect_tasks_max)
qed

lemma process_event_bounded:
  assumes "0 < max_tasks_in_memory st" and "length (tasks st) \<le> max_tasks_in_memory st"
  shows "length (tasks (snd (process_event st evt))) \<le> max_tasks_in_memory st"
proof (cases "resolved_state evt")
  case None
  with assms show ?thesis by (simp add: process_event_unresolved)
next
  case (Some state)
  from process_event_stages [OF Some, of st] obtain st2 where l: "lookup_only st st2"
    and c: "process_event st evt = collect_tasks st2 evt state
      \<or> (\<exists>e. process_event st evt = (Some e, st2))"
    by blast
  from l assms have b: "0 < max_tasks_in_memory st2" "length (tasks st2) \<le> max_tasks_in_memory st2"
    "max_tasks_in_memory st2 = max_tasks_in_memory st"
    by (auto simp: lookup_only_def)
  from c show ?thesis
    using collect_tasks_bounded [OF b(1,2), of evt state] b by auto
qed

lemma process_event_inv:
  assumes "monitor_inv st"
  shows "monitor_inv (snd (process_event st evt))"
proof (cases "resolved_state evt")
  case None
  with assms show ?thesis by (simp add: process_event_unresolved)
next
  case (Some state)
  from process_event_stages [OF Some, of st] obtain st2 where l: "lookup_only st st2"
    and c: "process_event st evt = collect_tasks st2 evt state
      \<or> (\<exists>e. process_event st evt = (Some e, st2))"
    by blast
  from l assms have i: "monitor_inv st2" by (rule lookup_only_inv)
  from c show ?thesis
    using collect_tasks_inv [OF i Some] i by auto
qed

lemma process_event_TASKS:
  assumes "monitor_inv st" and "s \<in> READY_STATES"
  shows "gauge_value (TASKS (snd (process_event st evt))) s =
     gauge_value (TASKS st) s
       + (if resolved_state evt = Some s \<and> fst (process_event st evt) = None then 1 else 0)"
proof (cases "resolved_state evt")
  case None
  then show ?thesis by (simp add: process_event_unresolved)
next
  case (Some state)
  from process_event_stages [OF Some, of st] obtain st2 where l: "lookup_only st st2"
    and c: "process_event st evt = collect_tasks st2 evt state
      \<or> (\<exists>e. process_event st evt = (Some e, st2))"
    by blast
  from l assms(1) have i: "monitor_inv st2" by (rule lookup_only_inv)
  from l have t: "TASKS st2 = TASKS st" by (simp add: lookup_only_def)
  from c show ?thesis
  proof
    assume p: "process_event st evt = collect_tasks st2 evt state"
    have "state = s \<Longrightarrow> fst (collect_tasks st2 evt state) = None"
      using assms(2) by (simp add: collect_tasks_ready)
    with collect_tasks_TASKS [OF i Some assms(2)] show ?thesis
      by (auto simp: p t Some)
  next
    assume "\<exists>e. process_event st evt = (Some e, st2)"
    then show ?thesis by (auto simp: t)
  qed
qed

section \<open>What the other loops preserve, and runs of operations\<close>

lemma view_zero_not_exist:
  "monitor_view (snd (zero_not_exist_tasks st q tc)) = monitor_view st"
  by (auto simp: zero_not_exist_tasks_def monitor_view_def Let_def)

lemma view_collect_queue_tasks:
  "monitor_view (snd (collect_queue_tasks st q)) = monitor_view st"
proof (cases "tally (redis_lists st q) []")
  case (Inl e)
  then show ?thesis by (simp add: collect_queue_tasks_def)
next
  case (Inr tc)
  then show ?thesis
    by (simp add: collect_queue_tasks_def view_zero_not_exist) (simp add: monitor_view_def)
qed

lemma view_for_task_queues:
  "monitor_view (snd (for_task_queues st qs)) = monitor_view st"
proof (induction qs arbitrary: st)
  case Nil
  then show ?case by simp
next
  case (Cons q qs)
  show ?case
  proof (cases "collect_queue_tasks st q")
    case (Pair e st1)
    with view_collect_queue_tasks [of st q] have v: "monitor_view st1 = monitor_view st"
      by simp
    from Pair v Cons.IH [of st1] show ?thesis
      by (cases e) simp_all
  qed
qed

lemma view_collect_queue_lengths:
  "monitor_view (fold (\<lambda>q s. collect_queue_lengths s q) qs st) = monitor_view st"
  by (induction qs arbitrary: st) (simp_all add: collect_queue_lengths_def monitor_view_def)

lemma view_collect_metrics: "monitor_view (snd (collect_metrics st)) = monitor_view st"
  by (simp add: collect_metrics_def Let_def view_for_task_queues view_collect_queue_lengths)

lemma view_run_iteration: "monitor_view (run_iteration st) = monitor_view st"
proof (cases "collect_metrics st")
  case (Pair e st1)
  with view_collect_metrics [of st] have "monitor_view st1 = monitor_view st" by simp
  with Pair show ?thesis
    by (cases e) (simp_all add: run_iteration_def monitor_view_def)
qed

lemma view_update_workers_count:
  "monitor_view (update_workers_count st ping) = monitor_view st"
  by (cases ping) (simp_all add: update_workers_count_def monitor_view_def)

lemma setup_metrics_frame:
  "tasks (snd (setup_metrics st reg)) = tasks st
   \<and> max_tasks_in_memory (snd (setup_metrics st reg)) = max_tasks_in_memory st
   \<and> known_states (snd (setup_metrics st reg)) = known_states st"
  by (cases reg) (simp_all add: setup_metrics_def)

lemma setup_metrics_ready:
  assumes "s \<in> READY_STATES"
  shows "gauge_value (TASKS (snd (setup_metrics st (Some names)))) s = 0"
proof -
  from assms have "s \<in> set ALL_STATES"
    by (auto simp: READY_STATES_def ALL_STATES_def)
  then show ?thesis
    by (simp add: setup_metrics_def gauge_value_def)
qed

lemma execute_max: "max_tasks_in_memory (execute st op) = max_tasks_in_memory st"
proof (cases op)
  case (Process_event evt)
  then show ?thesis by (simp add: process_event_max)
next
  case (Setup_metrics reg)
  then show ?thesis by (simp add: setup_metrics_frame)
next
  case Queue_poll
  with view_run_iteration [of st] show ?thesis by (simp add: monitor_view_def)
next
  case (Workers_poll ping)
  with view_update_workers_count [of st ping] show ?thesis by (simp add: monitor_view_def)
qed

lemma execute_bounded:
  assumes "0 < max_tasks_in_memory st" and "length (tasks st) \<le> max_tasks_in_memory st"
  shows "length (tasks (execute st op)) \<le> max_tasks_in_memory st"
proof (cases op)
  case (Process_event evt)
  with process_event_bounded [OF assms] show ?thesis by simp
next
  case (Setup_metrics reg)
  with assms show ?thesis by (simp add: setup_metrics_frame)
next
  case Queue_poll
  with view_run_iteration [of st] assms show ?thesis by (simp add: monitor_view_def)
next
  case (Workers_poll ping)
  with view_update_workers_count [of st ping] assms show ?thesis by (simp add: monitor_view_def)
qed

lemma execute_inv:
  assumes "monitor_inv st"
  shows "monitor_inv (execute st op)"
proof (cases op)
  case (Process_event evt)
  with process_event_inv [OF assms] show ?thesis by simp
next
  case (Setup_metrics reg)
  with assms show ?thesis by (simp add: monitor_inv_def setup_metrics_frame)
next
  case Queue_poll
  with view_run_iteration [of st] assms show ?thesis
    by (simp add: monitor_view_def monitor_inv_def)
next
  case (Workers_poll ping)
  with view_update_workers_count [of st ping] assms show ?thesis
    by (simp add: monitor_view_def monitor_inv_def)
qed

lemma run_ops_snoc: "run_ops st (ops @ [op]) = execute (run_ops st ops) op"
  by (simp add: run_ops_def)

lemma run_ops_max: "max_tasks_in_memory (run_ops st ops) = max_tasks_in_memory st"
  by (induction ops rule: rev_induct) (simp_all add: run_ops_snoc execute_max, simp add: run_ops_def)

lemma run_ops_bounded:
  assumes "0 < max_tasks_in_memory st" and "length (tasks st) \<le> max_tasks_in_memory st"
  shows "length (tasks (run_ops st ops)) \<le> max_tasks_in_memory st"
proof (induction ops rule: rev_induct)
  case Nil
  from assms show ?case by (simp add: run_ops_def)
next
  case (snoc op ops)
  from execute_bounded [of "run_ops st ops" op] snoc assms(1) show ?case
    by (simp add: run_ops_snoc run_ops_max)
qed

lemma run_ops_inv:
  assumes "monitor_inv st"
  shows "monitor_inv (run_ops st ops)"
proof (induction ops rule: rev_induct)
  case Nil
  from assms show ?case by (simp add: run_ops_def)
next
  case (snoc op ops)
  then show ?case by (simp add: run_ops_snoc execute_inv)
qed

lemma init_exporter_inv: "monitor_inv (init_exporter limit ks ls ss)"
  by (simp add: monitor_inv_def unready_store_def init_exporter_def)

section \<open>The order of the store\<close>

lemma keys_od_set:
  "map fst (od_set k v d) = (if k \<in> set (map fst d) then map fst d else map fst d @ [k])"
  by (induction d) auto

lemma keys_od_del: "map fst (od_del k d) = remove1 k (map fst d)"
  by (induction d) auto

lemma keys_lru_setitem_room:
  assumes "limit = 0 \<or> length d < limit"
  shows "map fst (lru_setitem limit d k v)
     = (if k \<in> set (map fst d) then map fst d else map fst d @ [k])"
  using assms by (auto simp: lru_setitem_def keys_od_set)

lemma distinct_od_set: "distinct (map fst d) \<Longrightarrow> distinct (map fst (od_set k v d))"
  by (simp add: keys_od_set)

lemma distinct_od_del: "distinct (map fst d) \<Longrightarrow> distinct (map fst (od_del k d))"
  by (simp add: keys_od_del)

lemma distinct_tl_keys: "distinct (map fst d) \<Longrightarrow> distinct (map fst (tl d))"
  by (cases d) auto

lemma distinct_lru_setitem:
  "distinct (map fst d) \<Longrightarrow> distinct (map fst (lru_setitem limit d k v))"
  by (simp add: lru_setitem_def distinct_od_set distinct_tl_keys)

lemma distinct_lru_getitem:
  assumes "lru_getitem limit d k = Some (v, d')" and "distinct (map fst d)"
  shows "distinct (map fst d')"
  using assms
  by (auto simp: lru_getitem_def distinct_lru_setitem distinct_od_del split: option.splits)

lemma distinct_lru_pop:
  assumes "lru_pop limit d k = Some (v, d')" and "distinct (map fst d)"
  shows "distinct (map fst d')"
proof -
  from assms(1) obtain d1 where g: "lru_getitem limit d k = Some (v, d1)" and d': "d' = od_del k d1"
    by (auto simp: lru_pop_def split: option.splits)
  from distinct_lru_getitem [OF g assms(2)] show ?thesis
    by (simp add: d' distinct_od_del)
qed

lemma keys_lru_getitem:
  assumes "lru_getitem limit d k = Some (v, d')" and "distinct (map fst d)"
    and "limit = 0 \<or> length d \<le> limit"
  shows "map fst d' = remove1 k (map fst d) @ [k]"
proof -
  from assms(1) have m: "map_of d k = Some v" and d': "d' = lru_setitem limit (od_del k d) k v"
    by (auto simp: lru_getitem_def split: option.splits)
  from length_od_del_present [OF m] assms(3)
  have room: "limit = 0 \<or> length (od_del k d) < limit" by auto
  from assms(2) have "k \<notin> set (remove1 k (map fst d))" by simp
  then show ?thesis
    unfolding d' keys_lru_setitem_room [OF room] by (simp add: keys_od_del)
qed

lemma distinct_observe_latency:
  "distinct (map fst (tasks st)) \<Longrightarrow> distinct (map fst (tasks (snd (observe_latency st evt))))"
  by (auto simp: observe_latency_def split: option.splits dest: distinct_lru_getitem)

lemma distinct_observe_runtime:
  "distinct (map fst (tasks st)) \<Longrightarrow> distinct (map fst (tasks (snd (observe_runtime st evt))))"
  by (auto simp: observe_runtime_def Let_def split: option.splits dest: distinct_lru_getitem)

lemma distinct_incr_ready_task:
  "distinct (map fst (tasks st)) \<Longrightarrow> distinct (map fst (tasks (incr_ready_task st evt s)))"
  by (auto simp: incr_ready_task_def Let_def split: option.splits dest: distinct_lru_pop)

lemma distinct_state_event:
  "distinct (map fst (tasks st)) \<Longrightarrow> distinct (map fst (tasks (snd (state_event st evt))))"
  by (auto simp: state_event_def Let_def distinct_od_set distinct_lru_setitem
      split: option.splits prod.splits)

lemma distinct_collect_tasks:
  assumes "distinct (map fst (tasks st))"
  shows "distinct (map fst (tasks (snd (collect_tasks st evt s))))"
proof (cases "s \<in> READY_STATES")
  case True
  with distinct_incr_ready_task [OF assms] show ?thesis
    by (simp add: collect_tasks_ready collect_unready_frame)
next
  case False
  with distinct_state_event [OF assms, of evt] show ?thesis
    by (simp add: collect_tasks_unready collect_unready_frame split: option.splits)
qed

lemma distinct_process_event:
  assumes "distinct (map fst (tasks st))"
  shows "distinct (map fst (tasks (snd (process_event st evt))))"
proof (cases "resolved_state evt")
  case None
  with assms show ?thesis by (simp add: process_event_unresolved)
next
  case (Some state)
  from resolved_stateD [OF Some] obtain ty where ty: "evt_type evt = Some ty"
    "group_from ty = ''task''" "TASK_EVENT_TO_STATE (drop 5 ty) = Some state"
    by blast
  define r1 where "r1 = (if state = STARTED then observe_latency st evt else (None, st))"
  define r2 where
    "r2 = (if state = SUCCESS then observe_runtime (snd r1) evt else (None, snd r1))"
  have d1: "distinct (map fst (tasks (snd r1)))"
    using assms by (simp add: r1_def distinct_observe_latency)
  then have d2: "distinct (map fst (tasks (snd r2)))"
    by (simp add: r2_def distinct_observe_runtime)
  have pe: "process_event st evt =
     (case r1 of (Some e, st1) \<Rightarrow> (Some e, st1)
      | (None, st1) \<Rightarrow> (case r2 of (Some e, st2) \<Rightarrow> (Some e, st2)
                          | (None, st2) \<Rightarrow> collect_tasks st2 evt state))"
    using ty by (simp add: process_event_def r1_def r2_def split: prod.splits option.splits)
  show ?thesis
  proof (cases r1)
    case (Pair e1 st1)
    show ?thesis
    proof (cases e1)
      case (Some e)
      with Pair pe d1 show ?thesis by simp
    next
      case None
      show ?thesis
      proof (cases r2)
        case (Pair e2 st2)
        with None \<open>r1 = (e1, st1)\<close> pe d2 distinct_collect_tasks [of st2 evt state]
        show ?thesis
          by (cases e2) auto
      qed
    qed
  qed
qed

lemma distinct_execute:
  assumes "distinct (map fst (tasks st))"
  shows "distinct (map fst (tasks (execute st op)))"
proof (cases op)
  case (Process_event evt)
  with distinct_process_event [OF assms] show ?thesis by simp
next
  case (Setup_metrics reg)
  with assms show ?thesis by (simp add: setup_metrics_frame)
next
  case Queue_poll
  with view_run_iteration [of st] assms show ?thesis by (simp add: monitor_view_def)
next
  case (Workers_poll ping)
  with view_update_workers_count [of st ping] assms show ?thesis by (simp add: monitor_view_def)
qed

lemma distinct_run_ops:
  assumes "distinct (map fst (tasks st))"
  shows "distinct (map fst (tasks (run_ops st ops)))"
proof (induction ops rule: rev_induct)
  case Nil
  from assms show ?case by (simp add: run_ops_def)
next
  case (snoc op ops)
  then show ?case by (simp add: run_ops_snoc distinct_execute)
qed

section \<open>The capacity of the store\<close>

lemma od_set_append_same:
  "k \<notin> fst ` set d \<Longrightarrow> od_set k v (d @ [(k, v0)]) = d @ [(k, v)]"
  by (induction d) auto

lemma lru_setitem_new:
  assumes "0 < limit" and "length d \<le> limit" and "k \<notin> fst ` set d"
  shows "lru_setitem limit d k v = (if length d = limit then tl d else d) @ [(k, v)]"
proof -
  from assms(3) set_tl [of d] have "k \<notin> fst ` set (tl d)" by auto
  with assms show ?thesis
    by (auto simp: lru_setitem_def od_set_new)
qed

lemma map_of_absent: "k \<notin> fst ` set d \<Longrightarrow> map_of d k = None"
  by (simp add: map_of_eq_None_iff)

lemma map_of_present: "k \<in> fst ` set d \<Longrightarrow> \<exists>v. map_of d k = Some v"
  by (cases "map_of d k") (auto simp: map_of_eq_None_iff)

lemma process_event_other:
  assumes "resolved_state evt = Some state" and "state \<noteq> STARTED" and "state \<noteq> SUCCESS"
  shows "process_event st evt = collect_tasks st evt state"
  using resolved_stateD [OF assms(1)] assms(2,3)
  by (auto simp: process_event_def)

lemma observe_latency_absent:
  assumes "evt_uuid evt = Some u" and "u \<notin> fst ` set (tasks st)"
  shows "observe_latency st evt = (None, st)"
  using assms map_of_absent [OF assms(2)]
  by (simp add: observe_latency_def lru_getitem_def)

lemma observe_latency_tasks:
  assumes "evt_uuid evt = Some u"
    and "lru_getitem (max_tasks_in_memory st) (tasks st) u = Some (t, d)"
  shows "tasks (snd (observe_latency st evt)) = d
     \<and> max_tasks_in_memory (snd (observe_latency st evt)) = max_tasks_in_memory st"
  using assms by (simp add: observe_latency_def split: option.splits)

lemma state_event_result:
  assumes "resolved_state evt = Some state" and "evt_uuid evt = Some u"
    and "fst (state_event st evt) = None"
  shows "tasks (snd (state_event st evt)) =
       (case map_of (tasks st) u of
          Some t \<Rightarrow> od_set u (task_event t state evt) (tasks st)
        | None \<Rightarrow> od_set u (task_event new_task state evt)
                   (lru_setitem (max_tasks_in_memory st) (tasks st) u new_task))"
proof -
  from resolved_stateD [OF assms(1)] obtain ty where ty: "evt_type evt = Some ty"
    "group_from ty = ''task''" "TASK_EVENT_TO_STATE (drop 5 ty) = Some state"
    by blast
  from ty have sub: "TASK_EVENT_TO_STATE (subject_of ty) = Some state"
    by (simp add: subject_of_task)
  from state_event_tasks [OF ty(1,2) sub assms(3)] assms(2) show ?thesis by simp
qed

lemma collect_tasks_unready_tasks:
  assumes "state \<notin> READY_STATES" and "fst (collect_tasks st evt state) = None"
  shows "fst (state_event st evt) = None
     \<and> tasks (snd (collect_tasks st evt state)) = tasks (snd (state_event st evt))"
  using assms by (simp add: collect_tasks_unready collect_unready_frame split: option.splits)

lemma new_id_step:
  assumes "0 < max_tasks_in_memory st" and bd: "length (tasks st) \<le> max_tasks_in_memory st"
    and r: "resolved_state evt = Some state" and n: "state \<notin> READY_STATES"
    and u: "evt_uuid evt = Some u" and f: "fst (process_event st evt) = None"
    and k: "u \<notin> fst ` set (tasks st)"
  shows "tasks (snd (process_event st evt))
       = (if length (tasks st) = max_tasks_in_memory st then tl (tasks st) else tasks st)
         @ [(u, task_event new_task state evt)]"
proof -
  have pe: "process_event st evt = collect_tasks st evt state"
  proof (cases "state = STARTED")
    case True
    with r observe_latency_absent [OF u k] show ?thesis
      by (simp add: process_event_started)
  next
    case False
    with n show ?thesis
      by (intro process_event_other [OF r]) (auto simp: READY_STATES_def)
  qed
  from f have f': "fst (collect_tasks st evt state) = None" by (simp only: pe)
  note c = collect_tasks_unready_tasks [OF n f']
  from c have se: "fst (state_event st evt) = None" by (rule conjunct1)
  from c have t: "tasks (snd (process_event st evt)) = tasks (snd (state_event st evt))"
    by (simp only: pe)
  from k set_tl [of "tasks st"] have k': "u \<notin> fst ` set (tl (tasks st))" by auto
  have m: "map_of (tasks st) u = None" by (rule map_of_absent [OF k])
  have "tasks (snd (state_event st evt)) =
      od_set u (task_event new_task state evt)
        (lru_setitem (max_tasks_in_memory st) (tasks st) u new_task)"
    using state_event_result [OF r u se] by (simp only: m option.case)
  also have "\<dots> = od_set u (task_event new_task state evt)
        ((if length (tasks st) = max_tasks_in_memory st then tl (tasks st) else tasks st)
          @ [(u, new_task)])"
    by (simp only: lru_setitem_new [OF assms(1) bd k])
  also have "\<dots> = (if length (tasks st) = max_tasks_in_memory st then tl (tasks st) else tasks st)
        @ [(u, task_event new_task state evt)]"
    using k k' by (simp add: od_set_append_same)
  finally show ?thesis
    by (simp only: t)
qed


lemma lookup_step:
  assumes mx: "max_tasks_in_memory st = 0 \<or> length (tasks st) \<le> max_tasks_in_memory st"
    and ds: "distinct (map fst (tasks st))"
    and r: "resolved_state evt = Some STARTED"
    and u: "evt_uuid evt = Some u" and f: "fst (process_event st evt) = None"
    and k: "u \<in> fst ` set (tasks st)"
  shows "map fst (tasks (snd (process_event st evt))) = remove1 u (map fst (tasks st)) @ [u]"
proof -
  from map_of_present [OF k] obtain t where m: "map_of (tasks st) u = Some t" ..
  define d where "d = lru_setitem (max_tasks_in_memory st) (od_del u (tasks st)) u t"
  have g: "lru_getitem (max_tasks_in_memory st) (tasks st) u = Some (t, d)"
    using m by (simp add: lru_getitem_def d_def)
  define st1 where "st1 = snd (observe_latency st evt)"
  have t1: "tasks st1 = d"
    using observe_latency_tasks [OF u g] by (simp only: st1_def)
  have kd: "map fst d = remove1 u (map fst (tasks st)) @ [u]"
    by (rule keys_lru_getitem [OF g ds mx])
  have n: "STARTED \<notin> READY_STATES" by (simp add: READY_STATES_def)
  have pe: "process_event st evt = collect_tasks st1 evt STARTED"
  proof (cases "observe_latency st evt")
    case (Pair e s1)
    from f Pair have "e = None"
      by (cases e) (simp_all add: process_event_started [OF r])
    with Pair show ?thesis
      by (simp add: process_event_started [OF r] st1_def)
  qed
  from f have f': "fst (collect_tasks st1 evt STARTED) = None" by (simp only: pe)
  note c = collect_tasks_unready_tasks [OF n f']
  from c have se: "fst (state_event st1 evt) = None" by (rule conjunct1)
  from c have t: "tasks (snd (process_event st evt)) = tasks (snd (state_event st1 evt))"
    by (simp only: pe)
  have "u \<in> set (map fst d)" by (simp add: kd)
  then have "u \<in> fst ` set d" by simp
  from map_of_present [OF this] obtain t' where m': "map_of d u = Some t'" ..
  have "tasks (snd (state_event st1 evt)) = od_set u (task_event t' STARTED evt) d"
    using state_event_result [OF r u se] by (simp only: t1 m' option.case)
  then have "map fst (tasks (snd (state_event st1 evt))) = map fst d"
    using \<open>u \<in> set (map fst d)\<close> by (simp only: keys_od_set if_True)
  then show ?thesis
    by (simp only: t kd)
qed

lemma update_step:
  assumes r: "resolved_state evt = Some state" and n: "state \<notin> READY_STATES"
    and s: "state \<noteq> STARTED"
    and u: "evt_uuid evt = Some u" and f: "fst (process_event st evt) = None"
    and k: "u \<in> fst ` set (tasks st)"
  shows "map fst (tasks (snd (process_event st evt))) = map fst (tasks st)"
proof -
  from map_of_present [OF k] obtain t where m: "map_of (tasks st) u = Some t" ..
  from n have "state \<noteq> SUCCESS" by (auto simp: READY_STATES_def)
  then have pe: "process_event st evt = collect_tasks st evt state"
    by (intro process_event_other [OF r s])
  from f have f': "fst (collect_tasks st evt state) = None" by (simp only: pe)
  note c = collect_tasks_unready_tasks [OF n f']
  from c have se: "fst (state_event st evt) = None" by (rule conjunct1)
  from c have t: "tasks (snd (process_event st evt)) = tasks (snd (state_event st evt))"
    by (simp only: pe)
  have "tasks (snd (state_event st evt)) = od_set u (task_event t state evt) (tasks st)"
    using state_event_result [OF r u se] by (simp only: m option.case)
  moreover from k have "u \<in> set (map fst (tasks st))" by simp
  ultimately have "map fst (tasks (snd (state_event st evt))) = map fst (tasks st)"
    by (simp only: keys_od_set if_True)
  then show ?thesis by (simp only: t)
qed

text \<open>
  Claim C8, as amended. With a capacity of at least 1, in every state reached from the
  initial state the store holds no more records than the capacity. The store is kept
  in the order of insertion, and only a lookup makes a record newer: an event of an
  unready kind that is processed without error, for a new id, puts the new record last
  and, when the store is full, drops exactly the first (oldest) entry before; for a
  tracked id, a started event (whose latency derivation looks the record up) moves the
  record to the last place, and any other event updates it where it stands.
\<close>

theorem store_bounded_evicts_oldest:
  assumes "0 < limit"
  shows "let st = run_ops (init_exporter limit ks ls ss) ops in
     length (tasks st) \<le> limit
     \<and> (\<forall>evt state u.
          resolved_state evt = Some state \<and> state \<notin> READY_STATES \<and> evt_uuid evt = Some u
          \<and> fst (process_event st evt) = None \<longrightarrow>
          (u \<notin> fst ` set (tasks st) \<longrightarrow>
             tasks (snd (process_event st evt))
               = (if length (tasks st) = limit then tl (tasks st) else tasks st)
                 @ [(u, task_event new_task state evt)])
          \<and> (u \<in> fst ` set (tasks st) \<and> state = STARTED \<longrightarrow>
             map fst (tasks (snd (process_event st evt)))
               = remove1 u (map fst (tasks st)) @ [u])
          \<and> (u \<in> fst ` set (tasks st) \<and> state \<noteq> STARTED \<longrightarrow>
             map fst (tasks (snd (process_event st evt))) = map fst (tasks st)))"
proof -
  define st where "st = run_ops (init_exporter limit ks ls ss) ops"
  have mx: "max_tasks_in_memory st = limit"
    by (simp add: st_def run_ops_max init_exporter_def)
  have bd: "length (tasks st) \<le> limit"
    using run_ops_bounded [of "init_exporter limit ks ls ss" ops] assms
    by (simp add: st_def init_exporter_def)
  have ds: "distinct (map fst (tasks st))"
    unfolding st_def by (rule distinct_run_ops) (simp add: init_exporter_def)
  have p: "0 < max_tasks_in_memory st" and b: "length (tasks st) \<le> max_tasks_in_memory st"
    using assms bd by (simp_all add: mx)
  show ?thesis
    unfolding st_def [symmetric] Let_def
  proof (intro conjI allI impI)
    show "length (tasks st) \<le> limit" by (rule bd)
  next
    fix evt state u
    assume h: "resolved_state evt = Some state \<and> state \<notin> READY_STATES
        \<and> evt_uuid evt = Some u \<and> fst (process_event st evt) = None"
      and k: "u \<notin> fst ` set (tasks st)"
    from h have r: "resolved_state evt = Some state" and n: "state \<notin> READY_STATES"
      and u: "evt_uuid evt = Some u" and f: "fst (process_event st evt) = None"
      by simp_all
    from new_id_step [OF p b r n u f k]
    show "tasks (snd (process_event st evt))
               = (if length (tasks st) = limit then tl (tasks st) else tasks st)
                 @ [(u, task_event new_task state evt)]"
      by (simp only: mx)
  next
    fix evt state u
    assume h: "resolved_state evt = Some state \<and> state \<notin> READY_STATES
        \<and> evt_uuid evt = Some u \<and> fst (process_event st evt) = None"
      and k: "u \<in> fst ` set (tasks st) \<and> state = STARTED"
    from h k have r: "resolved_state evt = Some STARTED"
      and u: "evt_uuid evt = Some u" and f: "fst (process_event st evt) = None"
      and k': "u \<in> fst ` set (tasks st)"
      by simp_all
    from b have "max_tasks_in_memory st = 0 \<or> length (tasks st) \<le> max_tasks_in_memory st" ..
    from lookup_step [OF this ds r u f k']
    show "map fst (tasks (snd (process_event st evt)))
               = remove1 u (map fst (tasks st)) @ [u]" .
  next
    fix evt state u
    assume h: "resolved_state evt = Some state \<and> state \<notin> READY_STATES
        \<and> evt_uuid evt = Some u \<and> fst (process_event st evt) = None"
      and k: "u \<in> fst ` set (tasks st) \<and> state \<noteq> STARTED"
    from h k have r: "resolved_state evt = Some state" and n: "state \<notin> READY_STATES"
      and s: "state \<noteq> STARTED"
      and u: "evt_uuid evt = Some u" and f: "fst (process_event st evt) = None"
      and k': "u \<in> fst ` set (tasks st)"
      by simp_all
    from update_step [OF r n s u f k']
    show "map fst (tasks (snd (process_event st evt))) = map fst (tasks st)" .
  qed
qed

lemma tasks_two_received:
  "tasks two_received =
     [(''a'', \<lparr>t_name = None, t_state = RECEIVED, t_timestamp = Some 1\<rparr>),
      (''b'', \<lparr>t_name = None, t_state = RECEIVED, t_timestamp = Some 2\<rparr>)]"
  by (simp add: two_received_def run_ops_def eval_defs)

lemma max_two_received: "max_tasks_in_memory two_received = 2"
  by (simp add: two_received_def run_ops_max empty_exporter_def init_exporter_def)

lemmas step_eval_defs =
  process_event_def task_evt_def group_from_def subject_of_def TASK_EVENT_TO_STATE_def
  collect_tasks_def READY_STATES_def state_event_def observe_latency_def lru_getitem_def
  lru_setitem_def task_event_def precedence_def new_task_def collect_unready_tasks_def
  Let_def tasks_two_received max_two_received

lemma received_c_two_received:
  "fst (process_event two_received (task_evt ''task-received'' ''c'' 3)) = None"
  "tasks (snd (process_event two_received (task_evt ''task-received'' ''c'' 3)))
     = [(''b'', \<lparr>t_name = None, t_state = RECEIVED, t_timestamp = Some 2\<rparr>),
        (''c'', \<lparr>t_name = None, t_state = RECEIVED, t_timestamp = Some 3\<rparr>)]"
  by (simp_all add: step_eval_defs)

lemma started_a_two_received:
  "fst (process_event two_received (task_evt ''task-started'' ''a'' 3)) = None"
  "map fst (tasks (snd (process_event two_received (task_evt ''task-started'' ''a'' 3))))
     = [''b'', ''a'']"
  by (simp_all add: step_eval_defs)

lemma retried_a_two_received:
  "fst (process_event two_received (task_evt ''task-retried'' ''a'' 3)) = None"
  "map fst (tasks (snd (process_event two_received (task_evt ''task-retried'' ''a'' 3))))
     = [''a'', ''b'']"
  by (simp_all add: step_eval_defs)

text \<open>
  Capacity 2 with a and b received: the received event of c drops a; a started event of
  a makes a the newest; a retried event of a leaves the order as it is.
\<close>

theorem store_bounded_evicts_oldest_witness:
  "0 < (2::nat)
   \<and> length (tasks two_received) \<le> 2
   \<and> resolved_state (task_evt ''task-received'' ''c'' 3) = Some RECEIVED
   \<and> RECEIVED \<notin> READY_STATES
   \<and> evt_uuid (task_evt ''task-received'' ''c'' 3) = Some ''c''
   \<and> fst (process_event two_received (task_evt ''task-received'' ''c'' 3)) = None
   \<and> ''c'' \<notin> fst ` set (tasks two_received)
   \<and> tasks (snd (process_event two_received (task_evt ''task-received'' ''c'' 3)))
       = [(''b'', \<lparr>t_name = None, t_state = RECEIVED, t_timestamp = Some 2\<rparr>),
          (''c'', \<lparr>t_name = None, t_state = RECEIVED, t_timestamp = Some 3\<rparr>)]
   \<and> resolved_state (task_evt ''task-started'' ''a'' 3) = Some STARTED
   \<and> STARTED \<notin> READY_STATES
   \<and> evt_uuid (task_evt ''task-started'' ''a'' 3) = Some ''a''
   \<and> fst (process_event two_received (task_evt ''task-started'' ''a'' 3)) = None
   \<and> ''a'' \<in> fst ` set (tasks two_received)
   \<and> map fst (tasks (snd (process_event two_received (task_evt ''task-started'' ''a'' 3))))
       = [''b'', ''a'']
   \<and> resolved_state (task_evt ''task-retried'' ''a'' 3) = Some RETRY
   \<and> RETRY \<notin> READY_STATES
   \<and> evt_uuid (task_evt ''task-retried'' ''a'' 3) = Some ''a''
   \<and> fst (process_event two_received (task_evt ''task-retried'' ''a'' 3)) = None
   \<and> map fst (tasks (snd (process_event two_received (task_evt ''task-retried'' ''a'' 3))))
       = [''a'', ''b'']"
proof -
  have T: "let st = two_received in
     length (tasks st) \<le> 2
     \<and> (\<forall>evt state u.
          resolved_state evt = Some state \<and> state \<notin> READY_STATES \<and> evt_uuid evt = Some u
          \<and> fst (process_event st evt) = None \<longrightarrow>
          (u \<notin> fst ` set (tasks st) \<longrightarrow>
             tasks (snd (process_event st evt))
               = (if length (tasks st) = 2 then tl (tasks st) else tasks st)
                 @ [(u, task_event new_task state evt)])
          \<and> (u \<in> fst ` set (tasks st) \<and> state = STARTED \<longrightarrow>
             map fst (tasks (snd (process_event st evt)))
               = remove1 u (map fst (tasks st)) @ [u])
          \<and> (u \<in> fst ` set (tasks st) \<and> state \<noteq> STARTED \<longrightarrow>
             map fst (tasks (snd (process_event st evt))) = map fst (tasks st)))"
    unfolding two_received_def empty_exporter_def
    by (rule store_bounded_evicts_oldest) simp
  have rd: "RECEIVED \<notin> READY_STATES" "STARTED \<notin> READY_STATES" "RETRY \<notin> READY_STATES"
    by (simp_all add: READY_STATES_def)
  have ids: "evt_uuid (task_evt ''task-received'' ''c'' 3) = Some ''c''"
    "evt_uuid (task_evt ''task-started'' ''a'' 3) = Some ''a''"
    "evt_uuid (task_evt ''task-retried'' ''a'' 3) = Some ''a''"
    by (simp_all add: task_evt_def)
  have ks: "''c'' \<notin> fst ` set (tasks two_received)" "''a'' \<in> fst ` set (tasks two_received)"
    by (simp_all add: tasks_two_received)
  from T have len: "length (tasks two_received) \<le> 2"
    by (simp only: Let_def)
  from T have A: "tasks (snd (process_event two_received (task_evt ''task-received'' ''c'' 3)))
       = (if length (tasks two_received) = 2 then tl (tasks two_received) else tasks two_received)
         @ [(''c'', task_event new_task RECEIVED (task_evt ''task-received'' ''c'' 3))]"
    using resolved_simps(2) [of "''c''" 3] rd(1) ids(1) received_c_two_received(1) ks(1)
    unfolding Let_def by blast
  from T have B: "map fst (tasks (snd (process_event two_received
         (task_evt ''task-started'' ''a'' 3))))
       = remove1 ''a'' (map fst (tasks two_received)) @ [''a'']"
    using resolved_simps(3) [of "''a''" 3] rd(2) ids(2) started_a_two_received(1) ks(2)
    unfolding Let_def by blast
  from T have C: "map fst (tasks (snd (process_event two_received
         (task_evt ''task-retried'' ''a'' 3))))
       = map fst (tasks two_received)"
    using resolved_simps(6) [of "''a''" 3] rd(3) ids(3) retried_a_two_received(1) ks(2)
    unfolding Let_def by blast
  have A': "tasks (snd (process_event two_received (task_evt ''task-received'' ''c'' 3)))
       = [(''b'', \<lparr>t_name = None, t_state = RECEIVED, t_timestamp = Some 2\<rparr>),
          (''c'', \<lparr>t_name = None, t_state = RECEIVED, t_timestamp = Some 3\<rparr>)]"
    unfolding A
    by (simp add: tasks_two_received task_event_def new_task_def precedence_def task_evt_def)
  have B': "map fst (tasks (snd (process_event two_received
         (task_evt ''task-started'' ''a'' 3)))) = [''b'', ''a'']"
    unfolding B by (simp add: tasks_two_received)
  have C': "map fst (tasks (snd (process_event two_received
         (task_evt ''task-retried'' ''a'' 3)))) = [''a'', ''b'']"
    unfolding C by (simp add: tasks_two_received)
  have z: "0 < (2::nat)" by simp
  show ?thesis
    by (intro conjI z len resolved_simps rd ids ks received_c_two_received(1)
        started_a_two_received(1) retried_a_two_received(1) A' B' C')
qed

text \<open>
  The claim as stated fails twice. With a capacity of 0 the first event leaves one
  record in the store. With a capacity of 2, after a and b are received and a is
  retried, the received event of c evicts a, the record updated last, and keeps b.
\<close>

theorem store_bound_counterexample:
  "\<not> length (tasks (run_ops (init_exporter 0 [] (\<lambda>_. []) (\<lambda>_. {}))
          [Process_event (task_evt ''task-received'' ''a'' 1)]))
      \<le> max_tasks_in_memory (init_exporter 0 [] (\<lambda>_. []) (\<lambda>_. {}))
   \<and> map fst (tasks (run_ops (empty_exporter 2)
          [Process_event (task_evt ''task-received'' ''a'' 1),
           Process_event (task_evt ''task-received'' ''b'' 2),
           Process_event (task_evt ''task-retried'' ''a'' 3),
           Process_event (task_evt ''task-received'' ''c'' 4)]))
       = [''b'', ''c'']"
proof -
  have 1: "\<not> length (tasks (run_ops (init_exporter 0 [] (\<lambda>_. []) (\<lambda>_. {}))
          [Process_event (task_evt ''task-received'' ''a'' 1)]))
      \<le> max_tasks_in_memory (init_exporter 0 [] (\<lambda>_. []) (\<lambda>_. {}))"
    by (simp add: run_ops_def eval_defs)
  have 2: "map fst (tasks (run_ops (empty_exporter 2)
          [Process_event (task_evt ''task-received'' ''a'' 1),
           Process_event (task_evt ''task-received'' ''b'' 2),
           Process_event (task_evt ''task-retried'' ''a'' 3),
           Process_event (task_evt ''task-received'' ''c'' 4)]))
       = [''b'', ''c'']"
    by (simp add: run_ops_def eval_defs)
  from 1 2 show ?thesis ..
qed

section \<open>The recomputation pass and the ready counters\<close>

text \<open>
  Claim C9. After any sequence of operations from the initial state every stored record
  is in an unready state, the remembered set of states holds no ready state, and the
  recomputation pass leaves the series of every ready state as it was.
\<close>

theorem known_states_never_ready:
  "unready_store (tasks (run_ops (init_exporter limit ks ls ss) ops))
   \<and> known_states (run_ops (init_exporter limit ks ls ss) ops) \<inter> READY_STATES = {}
   \<and> (\<forall>s \<in> READY_STATES.
         TASKS (collect_unready_tasks (run_ops (init_exporter limit ks ls ss) ops)) s
           = TASKS (run_ops (init_exporter limit ks ls ss) ops) s)"
proof -
  have i: "monitor_inv (run_ops (init_exporter limit ks ls ss) ops)"
    by (rule run_ops_inv [OF init_exporter_inv])
  then show ?thesis
    by (simp add: collect_unready_ready) (simp add: monitor_inv_def)
qed

lemma known_received_then_failed:
  "known_states (run_ops (empty_exporter 2) received_then_failed) = {RECEIVED}"
  by (simp add: received_then_failed_def run_ops_def eval_defs)

lemma TASKS_received_then_failed:
  "TASKS (run_ops (empty_exporter 2) received_then_failed) FAILURE = Some 1"
  "TASKS (run_ops (empty_exporter 2) received_then_failed) RECEIVED = Some 1"
  by (simp_all add: received_then_failed_def run_ops_def eval_defs count_state_def)

text \<open>
  After two received events and the failure of the first task the remembered states are
  RECEIVED alone, and one more recomputation pass keeps the FAILURE counter at 1.
\<close>

theorem known_states_never_ready_witness:
  "FAILURE \<in> READY_STATES
   \<and> known_states (run_ops (init_exporter 2 [] (\<lambda>_. []) (\<lambda>_. {})) received_then_failed)
       = {RECEIVED}
   \<and> TASKS (collect_unready_tasks
        (run_ops (init_exporter 2 [] (\<lambda>_. []) (\<lambda>_. {})) received_then_failed)) FAILURE
       = Some 1"
proof -
  have f: "FAILURE \<in> READY_STATES" by (simp add: READY_STATES_def)
  from known_states_never_ready [of 2 "[]" "\<lambda>_. []" "\<lambda>_. {}" received_then_failed]
  have "TASKS (collect_unready_tasks
        (run_ops (init_exporter 2 [] (\<lambda>_. []) (\<lambda>_. {})) received_then_failed)) FAILURE
       = TASKS (run_ops (init_exporter 2 [] (\<lambda>_. []) (\<lambda>_. {})) received_then_failed) FAILURE"
    using f by blast
  with f known_received_then_failed TASKS_received_then_failed(1) show ?thesis
    by (simp add: empty_exporter_def)
qed

section \<open>The ready counters over the life of the process\<close>

text \<open>
  Claim C3, as amended. In every state reached from the initial state and for every
  ready state s: processing an event never lowers \<^verbatim>\<open>celery_tasks{state=s}\<close>, and raises
  it by exactly 1 when the event resolves to s and is processed without error; a turn
  of the queue monitor or of the worker poller leaves it unchanged; \<^verbatim>\<open>setup_metrics\<close>,
  called on every (re)connect, sets it back to 0 when the registry query is answered.
\<close>

theorem ready_counter_steps:
  assumes "s \<in> READY_STATES"
  shows "let st = run_ops (init_exporter limit ks ls ss) ops in
     (\<forall>evt. gauge_value (TASKS (execute st (Process_event evt))) s =
        gauge_value (TASKS st) s
          + (if resolved_state evt = Some s \<and> fst (process_event st evt) = None
             then 1 else 0))
     \<and> TASKS (execute st Queue_poll) s = TASKS st s
     \<and> (\<forall>ping. TASKS (execute st (Workers_poll ping)) s = TASKS st s)
     \<and> (\<forall>names. gauge_value (TASKS (execute st (Setup_metrics (Some names)))) s = 0)"
proof -
  define st where "st = run_ops (init_exporter limit ks ls ss) ops"
  have i: "monitor_inv st"
    unfolding st_def by (rule run_ops_inv [OF init_exporter_inv])
  have a: "gauge_value (TASKS (execute st (Process_event evt))) s =
        gauge_value (TASKS st) s
          + (if resolved_state evt = Some s \<and> fst (process_event st evt) = None
             then 1 else 0)" for evt
    using process_event_TASKS [OF i assms, of evt] by simp
  have b: "TASKS (execute st Queue_poll) s = TASKS st s"
    using view_run_iteration [of st] by (simp add: monitor_view_def)
  have c: "TASKS (execute st (Workers_poll ping)) s = TASKS st s" for ping
    using view_update_workers_count [of st ping] by (simp add: monitor_view_def)
  have d: "gauge_value (TASKS (execute st (Setup_metrics (Some names)))) s = 0" for names
    using setup_metrics_ready [OF assms] by simp
  from a b c d show ?thesis
    unfolding st_def [symmetric] Let_def by blast
qed

lemma failed_b_after_failed:
  "fst (process_event st (task_evt ''task-failed'' ''b'' 4)) = None"
  by (simp add: process_event_def task_evt_def group_from_def
      TASK_EVENT_TO_STATE_def collect_tasks_def READY_STATES_def)

text \<open>
  After two received events and the failure of the first task the FAILURE counter is
  1; the failure of the second task takes it to 2, and a re-baselining with an answered
  registry query takes it from 1 to 0.
\<close>

theorem ready_counter_steps_witness:
  "FAILURE \<in> READY_STATES
   \<and> gauge_value (TASKS (run_ops (init_exporter 2 [] (\<lambda>_. []) (\<lambda>_. {}))
        received_then_failed)) FAILURE = 1
   \<and> gauge_value (TASKS (execute
        (run_ops (init_exporter 2 [] (\<lambda>_. []) (\<lambda>_. {})) received_then_failed)
        (Process_event (task_evt ''task-failed'' ''b'' 4)))) FAILURE = 2
   \<and> gauge_value (TASKS (execute
        (run_ops (init_exporter 2 [] (\<lambda>_. []) (\<lambda>_. {})) received_then_failed)
        (Setup_metrics (Some [[''emailTask'']])))) FAILURE = 0"
proof -
  let ?st = "run_ops (init_exporter 2 [] (\<lambda>_. []) (\<lambda>_. {})) received_then_failed"
  have f: "FAILURE \<in> READY_STATES" by (simp add: READY_STATES_def)
  have o: "gauge_value (TASKS ?st) FAILURE = 1"
    using TASKS_received_then_failed(1) by (simp add: gauge_value_def empty_exporter_def)
  from ready_counter_steps [OF f, of 2 "[]" "\<lambda>_. []" "\<lambda>_. {}" received_then_failed]
  have "gauge_value (TASKS (execute ?st (Process_event (task_evt ''task-failed'' ''b'' 4))))
          FAILURE =
        gauge_value (TASKS ?st) FAILURE
          + (if resolved_state (task_evt ''task-failed'' ''b'' 4) = Some FAILURE
                \<and> fst (process_event ?st (task_evt ''task-failed'' ''b'' 4)) = None
             then 1 else 0)"
    and z: "gauge_value (TASKS (execute ?st (Setup_metrics (Some [[''emailTask'']]))))
          FAILURE = 0"
    unfolding Let_def by blast+
  then have t: "gauge_value (TASKS (execute ?st
        (Process_event (task_evt ''task-failed'' ''b'' 4)))) FAILURE = 2"
    using o by (simp add: resolved_simps failed_b_after_failed)
  from f o t z show ?thesis by (intro conjI)
qed

text \<open>
  The claim as stated fails: after one failure the FAILURE counter is 1, and the
  re-baselining of the next (re)connect lowers it to 0.
\<close>

theorem ready_counter_reset_counterexample:
  "FAILURE \<in> READY_STATES
   \<and> gauge_value (TASKS (run_ops (empty_exporter 2) received_then_failed)) FAILURE = 1
   \<and> gauge_value (TASKS (run_ops (empty_exporter 2)
         (received_then_failed @ [Setup_metrics (Some [])]))) FAILURE = 0"
proof -
  have "gauge_value (TASKS (snd (setup_metrics
          (run_ops (empty_exporter 2) received_then_failed) (Some [])))) FAILURE = 0"
    by (simp add: setup_metrics_def ALL_STATES_def gauge_value_def)
  then show ?thesis
    by (simp add: run_ops_snoc TASKS_received_then_failed gauge_value_def READY_STATES_def)
qed

section \<open>Ready events and the per-name counter\<close>

lemma tasks_after_started:
  "tasks after_started =
     [(''x'', \<lparr>t_name = None, t_state = STARTED, t_timestamp = Some 5\<rparr>)]"
  by (simp add: after_started_def eval_defs)

lemma TASKS_NAME_after_started: "TASKS_NAME after_started = Map.empty"
  by (simp add: after_started_def eval_defs named_keys_def)

lemma max_after_started: "max_tasks_in_memory after_started = 2"
  by (simp add: after_started_def process_event_max empty_exporter_def init_exporter_def)

lemma known_names_after_started: "known_states_names after_started = {}"
  by (simp add: after_started_def eval_defs named_keys_def)

text \<open>
  Claim C4 at the failing input. The store holds a record without a name for task x (a
  started event was the first one seen for x). Processing \<^verbatim>\<open>task-failed\<close> for x creates
  and increments the series \<^verbatim>\<open>celery_tasks_by_name{state=FAILURE, name=None}\<close>, where
  the claim has no per-name series incremented.
\<close>

theorem nameless_record_counted_under_None:
  "map_of (tasks after_started) ''x''
     = Some \<lparr>t_name = None, t_state = STARTED, t_timestamp = Some 5\<rparr>
   \<and> resolved_state (task_evt ''task-failed'' ''x'' 6) = Some FAILURE
   \<and> TASKS_NAME after_started (FAILURE, ''None'') = None
   \<and> TASKS_NAME (snd (process_event after_started (task_evt ''task-failed'' ''x'' 6)))
       (FAILURE, ''None'') = Some 1"
  by (simp add: tasks_after_started TASKS_NAME_after_started max_after_started
      known_names_after_started resolved_state_def
      process_event_def task_evt_def group_from_def TASK_EVENT_TO_STATE_def collect_tasks_def
      READY_STATES_def incr_ready_task_def lru_pop_def lru_getitem_def lru_setitem_def
      collect_unready_tasks_def named_keys_def gauge_inc_def gauge_value_def label_str_def
      Let_def)

section \<open>Malformed events\<close>












section \<open>The queue poll: tallies and zeroing\<close>

lemmas queue_eval_defs =
  init_exporter_def collect_metrics_def get_all_queues_def KEY_PREFIX_def
  BUILTIN_QUEUES_def get_task_queues_def collect_queue_lengths_def collect_queue_tasks_def
  zero_not_exist_tasks_def run_iteration_def header_str_def Let_def

text \<open>
  Claim C6 at the failing input. Queue q holds a message of task a and a message whose
  payload is no JSON object; b was seen before. The second message raises TypeError,
  which the tally loop does not skip: the poll ends there with nothing set, where the
  claim has \<^verbatim>\<open>celery_queue_tasks{q,a}\<close> at 1 and \<^verbatim>\<open>celery_queue_tasks{q,b}\<close> at 0.
\<close>

theorem malformed_entry_aborts_poll:
  "redis_lists malformed_queue ''q'' = [Task_message (Name ''a''), Not_object]
   \<and> redis_sets malformed_queue ''q_tasks'' = {''b''}
   \<and> collect_queue_tasks malformed_queue ''q'' = (Some TypeError, malformed_queue)
   \<and> QUEUE_TASKS (snd (collect_queue_tasks malformed_queue ''q'')) (''q'', ''a'') = None
   \<and> QUEUE_TASKS (snd (collect_queue_tasks malformed_queue ''q'')) (''q'', ''b'') = None"
proof -
  have l: "redis_lists malformed_queue ''q'' = [Task_message (Name ''a''), Not_object]"
    and s: "redis_sets malformed_queue ''q_tasks'' = {''b''}"
    and g: "QUEUE_TASKS malformed_queue = Map.empty"
    by (simp_all add: malformed_queue_def init_exporter_def)
  have c: "collect_queue_tasks malformed_queue ''q'' = (Some TypeError, malformed_queue)"
    by (simp add: collect_queue_tasks_def l)
  from l s c g show ?thesis by simp
qed

text \<open>
  On the specification's example, where every message decodes or is skipped, the poll
  does what the claim says: a is set to 4, b to 0, and the persisted set stays a and b.
\<close>

lemma queue_poll_example:
  "fst (collect_queue_tasks drained_queue ''q'') = None
   \<and> QUEUE_TASKS (snd (collect_queue_tasks drained_queue ''q'')) (''q'', ''a'') = Some 4
   \<and> QUEUE_TASKS (snd (collect_queue_tasks drained_queue ''q'')) (''q'', ''b'') = Some 0
   \<and> redis_sets (snd (collect_queue_tasks drained_queue ''q'')) ''q_tasks'' = {''a'', ''b''}"
  by (simp add: drained_queue_def queue_eval_defs insert_commute)

text \<open>
  A task header that is a number is tallied under a key that no member of the
  persisted set equals: its series is set to the count and then to 0.
\<close>

lemma numeric_header_zeroed:
  "fst (collect_queue_tasks numeric_header_queue ''q'') = None
   \<and> QUEUE_TASKS (snd (collect_queue_tasks numeric_header_queue ''q'')) (''q'', ''5'') = Some 0"
  by (simp add: numeric_header_queue_def queue_eval_defs)

section \<open>The queue poll with an empty snapshot\<close>

lemma tally_skips:
  assumes "\<forall>m \<in> set ms. task_name_of m = Inl KeyError \<or> task_name_of m = Inl JSONDecodeError"
  shows "tally ms tc = Inr tc"
  using assms by (induction ms) auto

text \<open>
  Claim C10. When every message of the queue is skipped by the tally loop (the queue is
  empty, or each entry raises KeyError or JSONDecodeError), the snapshot is empty, the
  update of the persisted set is a SADD without members, and \<^verbatim>\<open>_collect_queue_tasks\<close>
  ends in the error of that command instead of returning; the persisted set is left as
  it was.
\<close>

theorem empty_snapshot_raises:
  assumes "\<forall>m \<in> set (redis_lists st q).
             task_name_of m = Inl KeyError \<or> task_name_of m = Inl JSONDecodeError"
  shows "tally (redis_lists st q) [] = Inr []
   \<and> fst (collect_queue_tasks st q) = Some ResponseError
   \<and> redis_sets (snd (collect_queue_tasks st q)) = redis_sets st"
proof -
  have t: "tally (redis_lists st q) [] = Inr []"
    by (rule tally_skips [OF assms])
  then show ?thesis
    by (simp add: collect_queue_tasks_def zero_not_exist_tasks_def)
qed

lemma lists_undecodable_queue:
  "redis_lists undecodable_queue ''q'' = [Not_json, No_task_key]"
  by (simp add: undecodable_queue_def init_exporter_def)

text \<open>A queue of two undecodable messages.\<close>

theorem empty_snapshot_raises_witness:
  "(task_name_of Not_json = Inl JSONDecodeError \<and> task_name_of No_task_key = Inl KeyError)
   \<and> redis_lists undecodable_queue ''q'' = [Not_json, No_task_key]
   \<and> fst (collect_queue_tasks undecodable_queue ''q'') = Some ResponseError"
  using empty_snapshot_raises [of undecodable_queue "''q''"]
  by (simp add: lists_undecodable_queue)

section \<open>A failing queue in a poll cycle\<close>



lemma suffix_tasks_inj: "q @ ''_tasks'' = q' @ ''_tasks'' \<longleftrightarrow> q = q'"
  by simp














text \<open>
  With QUEUE_INTERVAL_SECONDS set, \<^verbatim>\<open>time.sleep\<close> gets text: the first turn ends the
  loop with a TypeError that no handler catches.
\<close>

lemma run_env_interval_stops: "fst (run (Some v) (Suc n) st) = Some TypeError"
  by (simp add: time_sleep_def Let_def)
















end
